theory Spec2Isabelle
  imports Main
begin

section \<open>The reference-counted smart pointer of smart\_ptr.cpp\<close>

text \<open>
  The class template \<open>smart_ptr<T>\<close> has two private members: \<open>T* ptr_\<close>, the referred
  object, and \<open>int* ref_\<close>, the shared reference count. Both are raw pointers into the
  free store, several \<open>smart_ptr\<close> objects may hold the same two pointers, and the
  assignment operators compare the addresses of \<open>smart_ptr\<close> objects (\<open>this != &rhs\<close>).
  The file replaces the global \<open>operator new\<close> and \<open>operator delete\<close>, which keep three
  globals. The model therefore keeps an explicit store:

  \<^item> \<open>objs\<close>: the live \<open>T\<close> objects of the free store, by address;
  \<^item> \<open>ints\<close>: the live \<open>int\<close> objects of the free store (the counts), by address;
  \<^item> \<open>ptrs\<close>: the live \<open>smart_ptr\<close> objects, by their identity (the value of \<open>this\<close>);
  \<^item> \<open>throwBadAlloc\<close>, \<open>recordaddrs\<close>, \<open>addrs\<close>: the globals of lines 305 to 308;
  \<^item> \<open>mallocd\<close>: the blocks that \<open>malloc\<close> has returned to \<open>operator new\<close> and that
    \<open>free\<close> has not received.

  A pointer is an \<open>addr option\<close>, \<open>None\<close> being \<open>nullptr\<close>. Member names cannot end in
  an underscore in Isabelle, so \<open>ptr_\<close> and \<open>ref_\<close> are written \<open>ptr_m\<close> and \<open>ref_m\<close>.
  The count is an \<open>int\<close> of C++, 32 bits wide: a count is an integer of the model, and
  every increment and decrement wraps around as the compiled code does (\<open>wrap32\<close>).
\<close>

type_synonym addr = nat
type_synonym hid = nat

record smart_ptr =
  ptr_m :: "addr option"
  ref_m :: "addr option"

record 'v state =
  objs :: "addr \<rightharpoonup> 'v"
  ints :: "addr \<rightharpoonup> int"
  ptrs :: "hid \<rightharpoonup> smart_ptr"
  throwBadAlloc :: int
  recordaddrs :: bool
  addrs :: "addr set"
  mallocd :: "addr set"

text \<open>
  \<open>BadAlloc\<close> is \<open>std::bad_alloc\<close>, \<open>NullPtrException\<close> is \<open>null_ptr_exception\<close>.
  \<open>Undefined\<close> stands for undefined behaviour of C++: reading or writing through a null
  pointer or through a pointer to a deleted object, deleting an object twice, calling a
  member of a \<open>smart_ptr\<close> that is not alive. An operation returns its result, or the
  exception it throws, together with the state it leaves.
\<close>

datatype error = BadAlloc | NullPtrException | Undefined

definition nullptr :: smart_ptr where
  "nullptr = \<lparr>ptr_m = None, ref_m = None\<rparr>"

text \<open>The value of a 32-bit \<open>int\<close> after an addition or a subtraction.\<close>

definition wrap32 :: "int \<Rightarrow> int" where
  "wrap32 x = (x + 2147483648) mod 4294967296 - 2147483648"

subsection \<open>The allocator\<close>

text \<open>
  Lines 316 to 321 of \<open>operator new\<close>: when \<open>recordaddrs\<close> is set or \<open>throwBadAlloc\<close> is
  not 0, a \<open>throwBadAlloc\<close> of 1 throws and a greater one is decremented.
\<close>

definition count_down :: "'v state \<Rightarrow> error + 'v state" where
  "count_down s =
     (if recordaddrs s \<or> throwBadAlloc s \<noteq> 0 then
        (if throwBadAlloc s = 1 then Inl BadAlloc
         else if throwBadAlloc s > 1 then Inr (s\<lparr>throwBadAlloc := throwBadAlloc s - 1\<rparr>)
         else Inr s)
      else Inr s)"

text \<open>
  \<open>operator new\<close> (lines 314 to 330). \<open>p\<close> is the address that \<open>malloc\<close> returns; \<open>malloc\<close>
  never returns storage that is in use, which is a hypothesis wherever it matters
  (\<open>unused\<close> below). When \<open>recordaddrs\<close> is set, the address is inserted into the set
  \<open>addrs\<close> with \<open>recordaddrs\<close> cleared meanwhile. \<open>std::set::insert\<close> allocates a node
  when the address is not in the set yet, through this same \<open>operator new\<close>: with
  \<open>recordaddrs\<close> cleared that call is lines 316 to 322 and the \<open>return\<close>. When it throws,
  the exception leaves \<open>operator new\<close> at line 326: the block \<open>p\<close> has been obtained from
  \<open>malloc\<close> and is handed to nobody, and \<open>recordaddrs\<close> stays cleared. The nodes are
  storage of the set itself and are not kept in \<open>mallocd\<close>.
\<close>

definition operator_new :: "addr \<Rightarrow> 'v state \<Rightarrow> (error + unit) \<times> 'v state" where
  "operator_new p s =
     (case count_down s of
        Inl e \<Rightarrow> (Inl e, s)
      | Inr s1 \<Rightarrow>
          (let s2 = s1\<lparr>mallocd := insert p (mallocd s1)\<rparr>
           in if recordaddrs s2 then
                (let s3 = s2\<lparr>recordaddrs := False\<rparr>
                 in if p \<in> addrs s3 then (Inr (), s3\<lparr>recordaddrs := True\<rparr>)
                    else
                      (case count_down s3 of
                         Inl e \<Rightarrow> (Inl e, s3)
                       | Inr s4 \<Rightarrow>
                           (Inr (), s4\<lparr>addrs := insert p (addrs s4), recordaddrs := True\<rparr>)))
              else (Inr (), s2)))"

text \<open>
  \<open>operator delete\<close> (lines 332 to 343): when \<open>recordaddrs\<close> is set the address is erased
  from \<open>addrs\<close> if it is there, and \<open>recordaddrs\<close> is set again; then \<open>free\<close>.
\<close>

definition operator_delete :: "addr \<Rightarrow> 'v state \<Rightarrow> 'v state" where
  "operator_delete p s =
     (let s3 =
        (if recordaddrs s then
           (let s1 = s\<lparr>recordaddrs := False\<rparr>;
                s2 = (if p \<in> addrs s1 then s1\<lparr>addrs := addrs s1 - {p}\<rparr> else s1)
            in s2\<lparr>recordaddrs := True\<rparr>)
         else s)
      in s3\<lparr>mallocd := mallocd s3 - {p}\<rparr>)"

text \<open>\<open>delete p\<close> for a \<open>T* p\<close>: nothing for \<open>nullptr\<close>, undefined for a dead object.\<close>

definition delete_obj :: "addr option \<Rightarrow> 'v state \<Rightarrow> error + 'v state" where
  "delete_obj p s =
     (case p of
        None \<Rightarrow> Inr s
      | Some a \<Rightarrow>
          (case objs s a of
             None \<Rightarrow> Inl Undefined
           | Some v \<Rightarrow> Inr (operator_delete a (s\<lparr>objs := (objs s)(a := None)\<rparr>))))"

text \<open>\<open>delete r\<close> for an \<open>int* r\<close>.\<close>

definition delete_int :: "addr option \<Rightarrow> 'v state \<Rightarrow> error + 'v state" where
  "delete_int r s =
     (case r of
        None \<Rightarrow> Inr s
      | Some c \<Rightarrow>
          (case ints s c of
             None \<Rightarrow> Inl Undefined
           | Some n \<Rightarrow> Inr (operator_delete c (s\<lparr>ints := (ints s)(c := None)\<rparr>))))"

text \<open>\<open>(*r)++\<close> and \<open>(*r)--\<close> for an \<open>int* r\<close>, as \<open>*r += k\<close> on 32 bits.\<close>

definition deref_add :: "addr option \<Rightarrow> int \<Rightarrow> 'v state \<Rightarrow> error + 'v state" where
  "deref_add r k s =
     (case r of
        None \<Rightarrow> Inl Undefined
      | Some c \<Rightarrow>
          (case ints s c of
             None \<Rightarrow> Inl Undefined
           | Some n \<Rightarrow> Inr (s\<lparr>ints := (ints s)(c \<mapsto> wrap32 (n + k))\<rparr>)))"

subsection \<open>Constructors\<close>

text \<open>
  A constructor runs on storage \<open>this\<close> that holds no live \<open>smart_ptr\<close>; the object is
  alive once the constructor has returned, and never when it has thrown.
  Lines 17 to 20: the default constructor.
\<close>

definition ctor_default :: "hid \<Rightarrow> 'v state \<Rightarrow> (error + unit) \<times> 'v state" where
  "ctor_default this s = (Inr (), s\<lparr>ptrs := (ptrs s)(this \<mapsto> nullptr)\<rparr>)"

text \<open>
  Lines 24 to 27, \<open>smart_ptr(T* &raw_ptr)\<close>: \<open>ptr_ = raw_ptr; ref_ = new int(1);\<close> with no
  handler and no test of \<open>raw_ptr\<close>. \<open>r\<close> is the address \<open>malloc\<close> returns for the count.
\<close>

definition ctor_lref :: "hid \<Rightarrow> addr option \<Rightarrow> addr \<Rightarrow> 'v state \<Rightarrow> (error + unit) \<times> 'v state" where
  "ctor_lref this raw_ptr r s =
     (case operator_new r s of
        (Inl e, s1) \<Rightarrow> (Inl e, s1)
      | (Inr u, s1) \<Rightarrow>
          (Inr (), s1\<lparr>ints := (ints s1)(r \<mapsto> 1),
                      ptrs := (ptrs s1)(this \<mapsto> \<lparr>ptr_m = raw_ptr, ref_m = Some r\<rparr>)\<rparr>))"

text \<open>
  Lines 31 to 41, \<open>smart_ptr(T* &&raw_ptr)\<close>: the same, and the handler of
  \<open>std::bad_alloc\<close> runs \<open>delete raw_ptr; throw;\<close>.
\<close>

definition ctor_rref :: "hid \<Rightarrow> addr option \<Rightarrow> addr \<Rightarrow> 'v state \<Rightarrow> (error + unit) \<times> 'v state" where
  "ctor_rref this raw_ptr r s =
     (case operator_new r s of
        (Inl e, s1) \<Rightarrow>
          (case delete_obj raw_ptr s1 of
             Inl u \<Rightarrow> (Inl u, s1)
           | Inr s2 \<Rightarrow> (Inl e, s2))
      | (Inr u, s1) \<Rightarrow>
          (Inr (), s1\<lparr>ints := (ints s1)(r \<mapsto> 1),
                      ptrs := (ptrs s1)(this \<mapsto> \<lparr>ptr_m = raw_ptr, ref_m = Some r\<rparr>)\<rparr>))"

text \<open>
  Lines 45 to 49, the copy constructor: \<open>ptr_ = rhs.ptr_; ref_ = rhs.ref_; (*ref_)++;\<close>.
  The increment is not guarded.
\<close>

definition ctor_copy :: "hid \<Rightarrow> hid \<Rightarrow> 'v state \<Rightarrow> (error + unit) \<times> 'v state" where
  "ctor_copy this rhs s =
     (case ptrs s rhs of
        None \<Rightarrow> (Inl Undefined, s)
      | Some b \<Rightarrow>
          (case deref_add (ref_m b) 1 s of
             Inl e \<Rightarrow> (Inl e, s)
           | Inr s1 \<Rightarrow>
               (Inr (), s1\<lparr>ptrs := (ptrs s1)(this \<mapsto> \<lparr>ptr_m = ptr_m b, ref_m = ref_m b\<rparr>)\<rparr>)))"

text \<open>Lines 52 to 57, the move constructor.\<close>

definition ctor_move :: "hid \<Rightarrow> hid \<Rightarrow> 'v state \<Rightarrow> (error + unit) \<times> 'v state" where
  "ctor_move this rhs s =
     (case ptrs s rhs of
        None \<Rightarrow> (Inl Undefined, s)
      | Some b \<Rightarrow>
          (Inr (), s\<lparr>ptrs := (ptrs s)(this \<mapsto> \<lparr>ptr_m = ptr_m b, ref_m = ref_m b\<rparr>,
                                       rhs \<mapsto> nullptr)\<rparr>))"

subsection \<open>Observers\<close>

text \<open>Lines 125 to 132, \<open>ref_count\<close>.\<close>

definition ref_count :: "hid \<Rightarrow> 'v state \<Rightarrow> (error + int) \<times> 'v state" where
  "ref_count this s =
     (case ptrs s this of
        None \<Rightarrow> (Inl Undefined, s)
      | Some b \<Rightarrow>
          (case ref_m b of
             None \<Rightarrow> (Inr 0, s)
           | Some c \<Rightarrow>
               (case ints s c of
                  None \<Rightarrow> (Inl Undefined, s)
                | Some n \<Rightarrow> (Inr n, s))))"

text \<open>
  \<open>throw null_ptr_exception("error: invalid access")\<close> (lines 140 and 149). The
  constructor of \<open>null_ptr_exception\<close> is that of \<open>std::runtime_error\<close>, which copies the
  message into storage it obtains from \<open>operator new\<close>; \<open>m\<close> is the address \<open>malloc\<close>
  returns for it. So the expression throws \<open>std::bad_alloc\<close> when that allocation
  fails, and \<open>null_ptr_exception\<close> otherwise; the message lives as long as the exception
  object, which is destroyed when its handler is left (\<open>end_catch\<close> below).
\<close>

definition throw_null_ptr_exception :: "addr \<Rightarrow> 'v state \<Rightarrow> (error + 'a) \<times> 'v state" where
  "throw_null_ptr_exception m s =
     (case operator_new m s of
        (Inl e, s1) \<Rightarrow> (Inl e, s1)
      | (Inr u, s1) \<Rightarrow> (Inl NullPtrException, s1))"

text \<open>
  Lines 136 to 141, \<open>operator*\<close>: it returns the reference \<open>*ptr_\<close>, which is the
  address of the object, or throws.
\<close>

definition operator_star :: "hid \<Rightarrow> addr \<Rightarrow> 'v state \<Rightarrow> (error + addr) \<times> 'v state" where
  "operator_star this m s =
     (case ptrs s this of
        None \<Rightarrow> (Inl Undefined, s)
      | Some b \<Rightarrow>
          (case ptr_m b of
             Some p \<Rightarrow> (Inr p, s)
           | None \<Rightarrow> throw_null_ptr_exception m s))"

text \<open>Lines 145 to 150, \<open>operator->\<close>: it returns \<open>ptr_\<close>, or throws.\<close>

definition operator_arrow :: "hid \<Rightarrow> addr \<Rightarrow> 'v state \<Rightarrow> (error + addr) \<times> 'v state" where
  "operator_arrow this m s =
     (case ptrs s this of
        None \<Rightarrow> (Inl Undefined, s)
      | Some b \<Rightarrow>
          (case ptr_m b of
             Some p \<Rightarrow> (Inr p, s)
           | None \<Rightarrow> throw_null_ptr_exception m s))"

subsection \<open>Destructor\<close>

text \<open>
  Lines 153 to 169, the body of \<open>~smart_ptr\<close>. The copy assignment calls it on \<open>*this\<close>
  and goes on using the object, so the body is a function of its own; \<open>destroy\<close> is the
  end of the lifetime of a \<open>smart_ptr\<close>: the body, then the object is gone.
\<close>

definition dtor :: "hid \<Rightarrow> 'v state \<Rightarrow> (error + unit) \<times> 'v state" where
  "dtor this s =
     (case ptrs s this of
        None \<Rightarrow> (Inl Undefined, s)
      | Some b \<Rightarrow>
          (case ref_m b of
             None \<Rightarrow> (Inr (), s)
           | Some c \<Rightarrow>
               (case ints s c of
                  None \<Rightarrow> (Inl Undefined, s)
                | Some n \<Rightarrow>
                    if n = 1 then
                      (case delete_int (ref_m b) s of
                         Inl e \<Rightarrow> (Inl e, s)
                       | Inr s1 \<Rightarrow>
                           (case delete_obj (ptr_m b) s1 of
                              Inl e \<Rightarrow> (Inl e, s1)
                            | Inr s2 \<Rightarrow> (Inr (), s2\<lparr>ptrs := (ptrs s2)(this \<mapsto> nullptr)\<rparr>)))
                    else
                      (case deref_add (ref_m b) (- 1) s of
                         Inl e \<Rightarrow> (Inl e, s)
                       | Inr s1 \<Rightarrow> (Inr (), s1\<lparr>ptrs := (ptrs s1)(this \<mapsto> nullptr)\<rparr>)))))"

definition destroy :: "hid \<Rightarrow> 'v state \<Rightarrow> (error + unit) \<times> 'v state" where
  "destroy this s =
     (case dtor this s of
        (Inl e, s1) \<Rightarrow> (Inl e, s1)
      | (Inr u, s1) \<Rightarrow> (Inr (), s1\<lparr>ptrs := (ptrs s1)(this := None)\<rparr>))"

subsection \<open>Assignment\<close>

text \<open>
  The three statements that end both branches of the copy assignment (lines 67 to 70 and
  74 to 77): \<open>ptr_ = rhs.ptr_; ref_ = rhs.ref_; if (ref_ != nullptr) (*ref_)++;\<close>.
\<close>

definition adopt :: "hid \<Rightarrow> hid \<Rightarrow> 'v state \<Rightarrow> (error + unit) \<times> 'v state" where
  "adopt this rhs s =
     (case ptrs s rhs of
        None \<Rightarrow> (Inl Undefined, s)
      | Some b \<Rightarrow>
          (let s1 = s\<lparr>ptrs := (ptrs s)(this \<mapsto> \<lparr>ptr_m = ptr_m b, ref_m = ref_m b\<rparr>)\<rparr>
           in if ref_m b \<noteq> None then
                (case deref_add (ref_m b) 1 s1 of
                   Inl e \<Rightarrow> (Inl e, s1)
                 | Inr s2 \<Rightarrow> (Inr (), s2))
              else (Inr (), s1)))"

text \<open>Lines 61 to 81, the copy assignment.\<close>

definition copy_assign :: "hid \<Rightarrow> hid \<Rightarrow> 'v state \<Rightarrow> (error + unit) \<times> 'v state" where
  "copy_assign this rhs s =
     (if this \<noteq> rhs then
        (case ref_count this s of
           (Inl e, s0) \<Rightarrow> (Inl e, s0)
         | (Inr n, s0) \<Rightarrow>
             if n > 1 then
               (case ptrs s0 this of
                  None \<Rightarrow> (Inl Undefined, s0)
                | Some b \<Rightarrow>
                    (case deref_add (ref_m b) (- 1) s0 of
                       Inl e \<Rightarrow> (Inl e, s0)
                     | Inr s1 \<Rightarrow> adopt this rhs s1))
             else
               (case dtor this s0 of
                  (Inl e, s1) \<Rightarrow> (Inl e, s1)
                | (Inr u, s1) \<Rightarrow> adopt this rhs s1))
      else (Inr (), s))"

text \<open>Lines 84 to 93, the move assignment.\<close>

definition move_assign :: "hid \<Rightarrow> hid \<Rightarrow> 'v state \<Rightarrow> (error + unit) \<times> 'v state" where
  "move_assign this rhs s =
     (if this \<noteq> rhs then
        (case ptrs s this of
           None \<Rightarrow> (Inl Undefined, s)
         | Some a \<Rightarrow>
             (case ptrs s rhs of
                None \<Rightarrow> (Inl Undefined, s)
              | Some b \<Rightarrow>
                  (Inr (), s\<lparr>ptrs := (ptrs s)(this \<mapsto> \<lparr>ptr_m = ptr_m b, ref_m = ref_m b\<rparr>,
                                               rhs \<mapsto> nullptr)\<rparr>)))
      else (Inr (), s))"

subsection \<open>clone\<close>

text \<open>
  Lines 100 to 122. \<open>dflt\<close> is the value of a default-constructed \<open>T\<close>, \<open>p\<close> and \<open>r\<close> are
  the addresses \<open>malloc\<close> returns for \<open>new T()\<close> and \<open>new int(1)\<close>. When the first \<open>new\<close>
  throws, the handler deletes two null pointers; when the second throws, it deletes \<open>p\<close>
  and a null pointer. The copy assignment of \<open>T\<close> copies the value.
\<close>

definition clone :: "'v \<Rightarrow> hid \<Rightarrow> addr \<Rightarrow> addr \<Rightarrow> 'v state \<Rightarrow> (error + bool) \<times> 'v state" where
  "clone dflt this p r s =
     (case ptrs s this of
        None \<Rightarrow> (Inl Undefined, s)
      | Some b \<Rightarrow>
          (case ptr_m b of
             None \<Rightarrow> (Inr False, s)
           | Some q \<Rightarrow>
               (case ref_count this s of
                  (Inl e, s0) \<Rightarrow> (Inl e, s0)
                | (Inr n, s0) \<Rightarrow>
                    if n = 1 then (Inr False, s0)
                    else
                      (case operator_new p s0 of
                         (Inl e, s1) \<Rightarrow> (Inl e, s1)
                       | (Inr u, s1) \<Rightarrow>
                           (let s2 = s1\<lparr>objs := (objs s1)(p \<mapsto> dflt)\<rparr>
                            in case operator_new r s2 of
                                 (Inl e, s3) \<Rightarrow>
                                   (case delete_obj (Some p) s3 of
                                      Inl u \<Rightarrow> (Inl u, s3)
                                    | Inr s4 \<Rightarrow> (Inl e, s4))
                               | (Inr u, s3) \<Rightarrow>
                                   (let s4 = s3\<lparr>ints := (ints s3)(r \<mapsto> 1)\<rparr>
                                    in case objs s4 q of
                                         None \<Rightarrow> (Inl Undefined, s4)
                                       | Some v \<Rightarrow>
                                           (let s5 = s4\<lparr>objs := (objs s4)(p \<mapsto> v)\<rparr>;
                                                s6 = s5\<lparr>ptrs := (ptrs s5)(this \<mapsto> \<lparr>ptr_m = Some p, ref_m = ref_m b\<rparr>)\<rparr>
                                            in case deref_add (ref_m b) (- 1) s6 of
                                                 Inl e \<Rightarrow> (Inl e, s6)
                                               | Inr s7 \<Rightarrow>
                                                   (Inr True,
                                                    s7\<lparr>ptrs := (ptrs s7)(this \<mapsto> \<lparr>ptr_m = Some p, ref_m = Some r\<rparr>)\<rparr>))))))))"

subsection \<open>The two states of a box\<close>

text \<open>
  The spec calls a box \<open>Empty\<close> when it owns nothing and no count object exists, and
  \<open>Occupied\<close> when it owns a value together with a count.
\<close>

definition Empty :: "smart_ptr \<Rightarrow> bool" where
  "Empty b \<longleftrightarrow> ptr_m b = None \<and> ref_m b = None"

definition Occupied :: "smart_ptr \<Rightarrow> bool" where
  "Occupied b \<longleftrightarrow> ptr_m b \<noteq> None \<and> ref_m b \<noteq> None"

subsection \<open>The callers\<close>

text \<open>
  The test driver (\<open>testone\<close>, lines 345 to 583) obtains every raw value with a \<open>new\<close>
  expression of its own, which goes through the same \<open>operator new\<close>, sets
  \<open>throwBadAlloc\<close> and \<open>recordaddrs\<close>, deletes a raw value that no \<open>smart_ptr\<close> took
  (case 26), and catches the exceptions; when a handler of \<open>null_ptr_exception\<close> is left
  the exception object is destroyed and its message deleted (\<open>end_catch\<close>).
\<close>

definition init_state :: "'v state" where
  "init_state = \<lparr>objs = Map.empty, ints = Map.empty, ptrs = Map.empty, throwBadAlloc = 0,
     recordaddrs = False, addrs = {}, mallocd = {}\<rparr>"

definition new_obj :: "addr \<Rightarrow> 'v \<Rightarrow> 'v state \<Rightarrow> (error + unit) \<times> 'v state" where
  "new_obj a v s =
     (case operator_new a s of
        (Inl e, s1) \<Rightarrow> (Inl e, s1)
      | (Inr u, s1) \<Rightarrow> (Inr (), s1\<lparr>objs := (objs s1)(a \<mapsto> v)\<rparr>))"

definition set_throw :: "int \<Rightarrow> 'v state \<Rightarrow> 'v state" where
  "set_throw k s = s\<lparr>throwBadAlloc := k\<rparr>"

definition set_record :: "bool \<Rightarrow> 'v state \<Rightarrow> 'v state" where
  "set_record x s = s\<lparr>recordaddrs := x\<rparr>"

definition end_catch :: "addr \<Rightarrow> 'v state \<Rightarrow> 'v state" where
  "end_catch m s = operator_delete m s"

text \<open>No live \<open>smart_ptr\<close> holds the address \<open>a\<close>: the caller still owns the object.\<close>

definition unowned :: "'v state \<Rightarrow> addr \<Rightarrow> bool" where
  "unowned s a \<longleftrightarrow> (\<forall>h b. ptrs s h = Some b \<longrightarrow> ptr_m b \<noteq> Some a)"

text \<open>
  What a caller may pass to the two constructors from a raw pointer: a null pointer, or
  a live object that no \<open>smart_ptr\<close> holds.
\<close>

definition raw_ok :: "'v state \<Rightarrow> addr option \<Rightarrow> bool" where
  "raw_ok s raw_ptr \<longleftrightarrow>
     (case raw_ptr of None \<Rightarrow> True | Some a \<Rightarrow> objs s a \<noteq> None \<and> unowned s a)"

text \<open>What \<open>malloc\<close> may return: storage that is not in use.\<close>

definition unused :: "'v state \<Rightarrow> addr \<Rightarrow> bool" where
  "unused s p \<longleftrightarrow> p \<notin> mallocd s \<and> objs s p = None \<and> ints s p = None"

text \<open>
  The states a program can reach, with the number of steps taken: it starts with an
  empty free store and no \<open>smart_ptr\<close>, and each step is one operation of the class or
  one of the caller's steps above. The side conditions are those of C++ itself: a
  constructor runs on storage that holds no live object, every other member runs on a
  live object, and \<open>malloc\<close> returns storage that is not in use. An execution ends
  where its behaviour is undefined, so a step that ends in \<open>Undefined\<close> leads nowhere.
\<close>

inductive reach :: "'v \<Rightarrow> nat \<Rightarrow> 'v state \<Rightarrow> bool" for dflt :: 'v where
  r_init: "reach dflt 0 init_state"
| r_new_obj: "reach dflt k s \<Longrightarrow> unused s a \<Longrightarrow> new_obj a v s = (res, s') \<Longrightarrow>
    reach dflt (Suc k) s'"
| r_set_throw: "reach dflt k s \<Longrightarrow> reach dflt (Suc k) (set_throw t s)"
| r_set_record: "reach dflt k s \<Longrightarrow> reach dflt (Suc k) (set_record x s)"
| r_end_catch: "reach dflt k s \<Longrightarrow> objs s m = None \<Longrightarrow> ints s m = None \<Longrightarrow>
    reach dflt (Suc k) (end_catch m s)"
| r_delete_raw: "reach dflt k s \<Longrightarrow> unowned s a \<Longrightarrow> delete_obj (Some a) s = Inr s' \<Longrightarrow>
    reach dflt (Suc k) s'"
| r_ctor_default: "reach dflt k s \<Longrightarrow> ptrs s this = None \<Longrightarrow>
    ctor_default this s = (res, s') \<Longrightarrow> reach dflt (Suc k) s'"
| r_ctor_lref: "reach dflt k s \<Longrightarrow> ptrs s this = None \<Longrightarrow> raw_ok s raw_ptr \<Longrightarrow>
    unused s r \<Longrightarrow> ctor_lref this raw_ptr r s = (res, s') \<Longrightarrow>
    res \<noteq> Inl Undefined \<Longrightarrow> reach dflt (Suc k) s'"
| r_ctor_rref: "reach dflt k s \<Longrightarrow> ptrs s this = None \<Longrightarrow> raw_ok s raw_ptr \<Longrightarrow>
    unused s r \<Longrightarrow> ctor_rref this raw_ptr r s = (res, s') \<Longrightarrow>
    res \<noteq> Inl Undefined \<Longrightarrow> reach dflt (Suc k) s'"
| r_ctor_copy: "reach dflt k s \<Longrightarrow> ptrs s this = None \<Longrightarrow>
    ctor_copy this rhs s = (res, s') \<Longrightarrow> res \<noteq> Inl Undefined \<Longrightarrow> reach dflt (Suc k) s'"
| r_ctor_move: "reach dflt k s \<Longrightarrow> ptrs s this = None \<Longrightarrow>
    ctor_move this rhs s = (res, s') \<Longrightarrow> res \<noteq> Inl Undefined \<Longrightarrow> reach dflt (Suc k) s'"
| r_copy_assign: "reach dflt k s \<Longrightarrow> ptrs s this \<noteq> None \<Longrightarrow> ptrs s rhs \<noteq> None \<Longrightarrow>
    copy_assign this rhs s = (res, s') \<Longrightarrow> res \<noteq> Inl Undefined \<Longrightarrow> reach dflt (Suc k) s'"
| r_move_assign: "reach dflt k s \<Longrightarrow> ptrs s this \<noteq> None \<Longrightarrow> ptrs s rhs \<noteq> None \<Longrightarrow>
    move_assign this rhs s = (res, s') \<Longrightarrow> res \<noteq> Inl Undefined \<Longrightarrow> reach dflt (Suc k) s'"
| r_clone: "reach dflt k s \<Longrightarrow> unused s p \<Longrightarrow> unused s r \<Longrightarrow> p \<noteq> r \<Longrightarrow>
    clone dflt this p r s = (res, s') \<Longrightarrow> res \<noteq> Inl Undefined \<Longrightarrow> reach dflt (Suc k) s'"
| r_ref_count: "reach dflt k s \<Longrightarrow> ref_count this s = (res, s') \<Longrightarrow>
    res \<noteq> Inl Undefined \<Longrightarrow> reach dflt (Suc k) s'"
| r_star: "reach dflt k s \<Longrightarrow> unused s m \<Longrightarrow> operator_star this m s = (res, s') \<Longrightarrow>
    res \<noteq> Inl Undefined \<Longrightarrow> reach dflt (Suc k) s'"
| r_arrow: "reach dflt k s \<Longrightarrow> unused s m \<Longrightarrow> operator_arrow this m s = (res, s') \<Longrightarrow>
    res \<noteq> Inl Undefined \<Longrightarrow> reach dflt (Suc k) s'"
| r_destroy: "reach dflt k s \<Longrightarrow> destroy this s = (res, s') \<Longrightarrow> res \<noteq> Inl Undefined \<Longrightarrow>
    reach dflt (Suc k) s'"

definition reachable :: "'v \<Rightarrow> 'v state \<Rightarrow> bool" where
  "reachable dflt s \<longleftrightarrow> (\<exists>k. reach dflt k s)"

text \<open>The live \<open>smart_ptr\<close> objects that hold the count at address \<open>c\<close>.\<close>

definition aliases :: "(hid \<rightharpoonup> smart_ptr) \<Rightarrow> addr \<Rightarrow> hid set" where
  "aliases P c = {h. \<exists>b. P h = Some b \<and> ref_m b = Some c}"

text \<open>
  What holds in every state reached before a count can overflow: finitely many
  \<open>smart_ptr\<close> objects are alive; one that holds a value holds a count; its value and its
  count are live objects; the count is at least the number of \<open>smart_ptr\<close> objects that
  hold it; and two objects that hold the same value hold the same count.
\<close>

definition wf_state :: "'v state \<Rightarrow> bool" where
  "wf_state s \<longleftrightarrow>
     finite (dom (ptrs s)) \<and>
     (\<forall>h b. ptrs s h = Some b \<longrightarrow> ref_m b = None \<longrightarrow> ptr_m b = None) \<and>
     (\<forall>h b p. ptrs s h = Some b \<and> ptr_m b = Some p \<longrightarrow> objs s p \<noteq> None) \<and>
     (\<forall>h b c. ptrs s h = Some b \<and> ref_m b = Some c \<longrightarrow>
        (\<exists>n. ints s c = Some n \<and> int (card (aliases (ptrs s) c)) \<le> n)) \<and>
     (\<forall>h h' b b' p. ptrs s h = Some b \<and> ptrs s h' = Some b' \<and>
        ptr_m b = Some p \<and> ptr_m b' = Some p \<longrightarrow> ref_m b = ref_m b')"

text \<open>No count exceeds \<open>k\<close>: each step adds at most 1 to a count.\<close>

definition counts_le :: "nat \<Rightarrow> 'v state \<Rightarrow> bool" where
  "counts_le k s \<longleftrightarrow> (\<forall>c n. ints s c = Some n \<longrightarrow> n \<le> int k)"

subsection \<open>Scenarios of the test driver\<close>

text \<open>
  The prologue of \<open>testone\<close> declares \<open>dsp0\<close>, \<open>dsp1 {new double {3.14}}\<close>, \<open>dsp2\<close> and
  \<open>dsp3\<close>; they are the \<open>smart_ptr\<close> objects 0 to 3 here, the value is the integer 314 at
  address 0 and its count is at address 1. \<open>three_aliases\<close> is the state after
  \<open>dsp3 = dsp2 = dsp1\<close> (cases 4 and 21 to 25).
\<close>

definition prologue :: "int state" where
  "prologue =
     snd (ctor_default 3 (snd (ctor_default 2 (snd (ctor_rref 1 (Some 0) 1
       (snd (new_obj 0 314 (snd (ctor_default 0 init_state)))))))))"

definition three_aliases :: "int state" where
  "three_aliases = snd (copy_assign 3 2 (snd (copy_assign 2 1 prologue)))"

text \<open>
  Cases 22 and 23 of \<open>testone\<close> set \<open>recordaddrs\<close> and \<open>throwBadAlloc\<close> before
  \<open>dsp1.clone()\<close>.
\<close>

definition recording :: "int \<Rightarrow> int state" where
  "recording t = set_throw t (set_record True three_aliases)"


text \<open>
  \<open>smart_ptr<int> sp {nullptr};\<close> as the first statement of a program: the constructor
  from \<open>T* &&\<close> with a null raw pointer.
\<close>

definition null_built :: "int state" where
  "null_built = snd (ctor_rref 0 None 0 init_state)"

text \<open>
  The prologue followed by \<open>n\<close> rounds of \<open>dsp2 = dsp1; dsp2 = std::move(dsp0);\<close>.
\<close>

primrec leak :: "nat \<Rightarrow> int state" where
  "leak 0 = prologue"
| "leak (Suc n) = snd (move_assign 2 0 (snd (copy_assign 2 1 (leak n))))"

lemmas alloc = count_down_def operator_new_def operator_delete_def

lemmas prims = alloc delete_obj_def delete_int_def deref_add_def nullptr_def

lemmas ops = ctor_default_def ctor_lref_def ctor_rref_def ctor_copy_def ctor_move_def
  ref_count_def operator_star_def operator_arrow_def throw_null_ptr_exception_def dtor_def
  destroy_def adopt_def copy_assign_def move_assign_def clone_def new_obj_def set_throw_def
  set_record_def end_catch_def init_state_def

section \<open>What holds as long as no count overflows\<close>

subsection \<open>Who holds a count\<close>

lemma aliases_upd:
  "aliases (P(h \<mapsto> b)) c = (if ref_m b = Some c then insert h (aliases P c) else aliases P c - {h})"
  by (auto simp add: aliases_def)

lemma aliases_del: "aliases (P(h := None)) c = aliases P c - {h}"
  by (auto simp add: aliases_def)

lemma aliases_dom: "aliases P c \<subseteq> dom P"
  by (auto simp add: aliases_def)

lemma finite_aliases: "finite (dom P) \<Longrightarrow> finite (aliases P c)"
  using aliases_dom finite_subset by blast

lemma aliases_mem: "P h = Some b \<Longrightarrow> ref_m b = Some c \<Longrightarrow> h \<in> aliases P c"
  by (auto simp add: aliases_def)

subsection \<open>Changes of the state that keep it well formed\<close>

text \<open>
  \<open>wf_state\<close> depends on the two free stores and on the \<open>smart_ptr\<close> objects only. Each
  lemma below describes one change of these three components; the operations of the
  class are compositions of them.
\<close>

lemma wf_stateD:
  assumes "wf_state s"
  shows "finite (dom (ptrs s))"
    and "\<And>h b. ptrs s h = Some b \<Longrightarrow> ref_m b = None \<Longrightarrow> ptr_m b = None"
    and "\<And>h b p. ptrs s h = Some b \<Longrightarrow> ptr_m b = Some p \<Longrightarrow> objs s p \<noteq> None"
    and "\<And>h b c. ptrs s h = Some b \<Longrightarrow> ref_m b = Some c \<Longrightarrow>
          \<exists>n. ints s c = Some n \<and> int (card (aliases (ptrs s) c)) \<le> n"
    and "\<And>h h' b b' p. ptrs s h = Some b \<Longrightarrow> ptrs s h' = Some b' \<Longrightarrow>
          ptr_m b = Some p \<Longrightarrow> ptr_m b' = Some p \<Longrightarrow> ref_m b = ref_m b'"
proof -
  note w = assms [unfolded wf_state_def]
  note 1 = w [THEN conjunct1]
  note 2 = w [THEN conjunct2, THEN conjunct1]
  note 3 = w [THEN conjunct2, THEN conjunct2, THEN conjunct1]
  note 4 = w [THEN conjunct2, THEN conjunct2, THEN conjunct2, THEN conjunct1]
  note 5 = w [THEN conjunct2, THEN conjunct2, THEN conjunct2, THEN conjunct2]
  show "finite (dom (ptrs s))" by (rule 1)
  show "ptr_m b = None" if "ptrs s h = Some b" "ref_m b = None" for h b
    using 2 that by blast
  show "objs s p \<noteq> None" if "ptrs s h = Some b" "ptr_m b = Some p" for h b p
    using 3 that by blast
  show "\<exists>n. ints s c = Some n \<and> int (card (aliases (ptrs s) c)) \<le> n"
    if "ptrs s h = Some b" "ref_m b = Some c" for h b c
    using 4 that by blast
  show "ref_m b = ref_m b'"
    if "ptrs s h = Some b" "ptrs s h' = Some b'" "ptr_m b = Some p" "ptr_m b' = Some p"
    for h h' b b' p
    using 5 that by blast
qed

lemma wf_stateI:
  assumes "finite (dom (ptrs s))"
    and "\<And>h b. ptrs s h = Some b \<Longrightarrow> ref_m b = None \<Longrightarrow> ptr_m b = None"
    and "\<And>h b p. ptrs s h = Some b \<Longrightarrow> ptr_m b = Some p \<Longrightarrow> objs s p \<noteq> None"
    and "\<And>h b c. ptrs s h = Some b \<Longrightarrow> ref_m b = Some c \<Longrightarrow>
          \<exists>n. ints s c = Some n \<and> int (card (aliases (ptrs s) c)) \<le> n"
    and "\<And>h h' b b' p. ptrs s h = Some b \<Longrightarrow> ptrs s h' = Some b' \<Longrightarrow>
          ptr_m b = Some p \<Longrightarrow> ptr_m b' = Some p \<Longrightarrow> ref_m b = ref_m b'"
  shows "wf_state s"
  unfolding wf_state_def
proof (intro conjI allI impI)
  show "finite (dom (ptrs s))" by (rule assms(1))
  show "ptr_m b = None" if "ptrs s h = Some b" "ref_m b = None" for h b
    using that by (rule assms(2))
  show "objs s p \<noteq> None" if "ptrs s h = Some b \<and> ptr_m b = Some p" for h b p
    using that assms(3) by blast
  show "\<exists>n. ints s c = Some n \<and> int (card (aliases (ptrs s) c)) \<le> n"
    if "ptrs s h = Some b \<and> ref_m b = Some c" for h b c
    using that assms(4) by blast
  show "ref_m b = ref_m b'"
    if "ptrs s h = Some b \<and> ptrs s h' = Some b' \<and> ptr_m b = Some p \<and> ptr_m b' = Some p"
    for h h' b b' p
    using that assms(5) by blast
qed

lemma wf_frame:
  assumes wf: "wf_state s" and eq: "ptrs s' = ptrs s" "ints s' = ints s"
    and mono: "\<And>a. objs s a \<noteq> None \<Longrightarrow> objs s' a \<noteq> None"
  shows "wf_state s'"
proof (rule wf_stateI)
  note D = wf_stateD [OF wf]
  show "finite (dom (ptrs s'))" using D(1) eq by simp
  show "ptr_m b = None" if "ptrs s' h = Some b" "ref_m b = None" for h b
  proof -
    from that eq have "ptrs s h = Some b" by simp
    then show ?thesis using that(2) by (rule D(2))
  qed
  show "objs s' p \<noteq> None" if "ptrs s' h = Some b" "ptr_m b = Some p" for h b p
  proof -
    from that eq have "ptrs s h = Some b" by simp
    from D(3) [OF this that(2)] show ?thesis by (rule mono)
  qed
  show "\<exists>n. ints s' c = Some n \<and> int (card (aliases (ptrs s') c)) \<le> n"
    if "ptrs s' h = Some b" "ref_m b = Some c" for h b c
  proof -
    from that eq have "ptrs s h = Some b" by simp
    from D(4) [OF this that(2)] eq show ?thesis by simp
  qed
  show "ref_m b = ref_m b'"
    if "ptrs s' h = Some b" "ptrs s' h' = Some b'" "ptr_m b = Some p" "ptr_m b' = Some p"
    for h h' b b' p
  proof -
    from that eq have "ptrs s h = Some b" and "ptrs s h' = Some b'" by simp_all
    then show ?thesis using that(3,4) by (rule D(5))
  qed
qed

lemma wf_delete_unowned:
  assumes wf: "wf_state s" and un: "unowned s a" and eq: "ptrs s' = ptrs s" "ints s' = ints s"
    "objs s' = (objs s)(a := None)"
  shows "wf_state s'"
proof (rule wf_stateI)
  note D = wf_stateD [OF wf]
  show "finite (dom (ptrs s'))" using D(1) eq by simp
  show "ptr_m b = None" if "ptrs s' h = Some b" "ref_m b = None" for h b
  proof -
    from that eq have "ptrs s h = Some b" by simp
    then show ?thesis using that(2) by (rule D(2))
  qed
  show "objs s' p \<noteq> None" if "ptrs s' h = Some b" "ptr_m b = Some p" for h b p
  proof -
    from that eq have h: "ptrs s h = Some b" by simp
    with un that(2) have "p \<noteq> a" by (auto simp add: unowned_def)
    with D(3) [OF h that(2)] eq show ?thesis by simp
  qed
  show "\<exists>n. ints s' c = Some n \<and> int (card (aliases (ptrs s') c)) \<le> n"
    if "ptrs s' h = Some b" "ref_m b = Some c" for h b c
  proof -
    from that eq have "ptrs s h = Some b" by simp
    from D(4) [OF this that(2)] eq show ?thesis by simp
  qed
  show "ref_m b = ref_m b'"
    if "ptrs s' h = Some b" "ptrs s' h' = Some b'" "ptr_m b = Some p" "ptr_m b' = Some p"
    for h h' b b' p
  proof -
    from that eq have "ptrs s h = Some b" and "ptrs s h' = Some b'" by simp_all
    then show ?thesis using that(3,4) by (rule D(5))
  qed
qed

lemma card_aliases_drop:
  "finite (dom P) \<Longrightarrow> card (aliases P c - {h}) \<le> card (aliases P c)"
  by (simp add: card_Diff1_le)

lemma card_aliases_leave:
  assumes "finite (dom P)" and "P h = Some a" and "ref_m a = Some c"
  shows "int (card (aliases P c - {h})) = int (card (aliases P c)) - 1"
proof -
  have "h \<in> aliases P c" using assms by (simp add: aliases_mem)
  moreover have "finite (aliases P c)" using assms(1) by (rule finite_aliases)
  ultimately have "card (aliases P c) = Suc (card (aliases P c - {h}))"
    by (intro card.remove)
  then show ?thesis by simp
qed

lemma card_aliases_enter:
  "finite (dom P) \<Longrightarrow> card (insert h (aliases P c)) \<le> card (aliases P c) + 1"
  by (simp add: card_insert_if finite_aliases)

text \<open>
  A \<open>smart_ptr\<close> is set to two null pointers, or comes into existence with them, and no
  count changes. This is also what the move assignment does to its destination.
\<close>

lemma wf_drop:
  assumes wf: "wf_state s" and nb: "ptr_m nb = None" "ref_m nb = None"
    and eq: "objs s' = objs s" "ints s' = ints s" "ptrs s' = (ptrs s)(h \<mapsto> nb)"
  shows "wf_state s'"
proof (rule wf_stateI)
  note D = wf_stateD [OF wf]
  show "finite (dom (ptrs s'))" using D(1) eq by simp
  show "ptr_m b = None" if "ptrs s' k = Some b" "ref_m b = None" for k b
  proof (cases "k = h")
    case True
    with that eq nb show ?thesis by simp
  next
    case False
    with that eq have "ptrs s k = Some b" by simp
    then show ?thesis using that(2) by (rule D(2))
  qed
  show "objs s' p \<noteq> None" if "ptrs s' k = Some b" "ptr_m b = Some p" for k b p
    using that D(3) nb eq by (auto split: if_splits)
  show "\<exists>n. ints s' c = Some n \<and> int (card (aliases (ptrs s') c)) \<le> n"
    if "ptrs s' k = Some b" "ref_m b = Some c" for k b c
  proof -
    from that nb eq have k: "ptrs s k = Some b" by (auto split: if_splits)
    from D(4) [OF k that(2)] obtain n where n: "ints s c = Some n"
      "int (card (aliases (ptrs s) c)) \<le> n" by blast
    have "aliases (ptrs s') c = aliases (ptrs s) c - {h}"
      using nb eq by (simp add: aliases_upd)
    with n card_aliases_drop [OF D(1), of c h] eq show ?thesis by simp
  qed
  show "ref_m b = ref_m b'"
    if "ptrs s' k = Some b" "ptrs s' k' = Some b'" "ptr_m b = Some p" "ptr_m b' = Some p"
    for k k' b b' p
  proof -
    from that nb eq have "ptrs s k = Some b" and "ptrs s k' = Some b'"
      by (auto split: if_splits)
    then show ?thesis using that(3,4) by (rule D(5))
  qed
qed

text \<open>A \<open>smart_ptr\<close> ceases to exist.\<close>

lemma wf_remove:
  assumes wf: "wf_state s"
    and eq: "objs s' = objs s" "ints s' = ints s" "ptrs s' = (ptrs s)(h := None)"
  shows "wf_state s'"
proof (rule wf_stateI)
  note D = wf_stateD [OF wf]
  show "finite (dom (ptrs s'))" using D(1) eq by simp
  show "ptr_m b = None" if "ptrs s' k = Some b" "ref_m b = None" for k b
  proof -
    from that eq have "ptrs s k = Some b" by (auto split: if_splits)
    then show ?thesis using that(2) by (rule D(2))
  qed
  show "objs s' p \<noteq> None" if "ptrs s' k = Some b" "ptr_m b = Some p" for k b p
    using that D(3) eq by (auto split: if_splits)
  show "\<exists>n. ints s' c = Some n \<and> int (card (aliases (ptrs s') c)) \<le> n"
    if "ptrs s' k = Some b" "ref_m b = Some c" for k b c
  proof -
    from that eq have k: "ptrs s k = Some b" by (auto split: if_splits)
    from D(4) [OF k that(2)] obtain n where n: "ints s c = Some n"
      "int (card (aliases (ptrs s) c)) \<le> n" by blast
    have "aliases (ptrs s') c = aliases (ptrs s) c - {h}"
      using eq by (simp add: aliases_del)
    with n card_aliases_drop [OF D(1), of c h] eq show ?thesis by simp
  qed
  show "ref_m b = ref_m b'"
    if "ptrs s' k = Some b" "ptrs s' k' = Some b'" "ptr_m b = Some p" "ptr_m b' = Some p"
    for k k' b b' p
  proof -
    from that eq have "ptrs s k = Some b" and "ptrs s k' = Some b'"
      by (auto split: if_splits)
    then show ?thesis using that(3,4) by (rule D(5))
  qed
qed

text \<open>
  The second branch of the destructor: the count is decremented and the \<open>smart_ptr\<close>
  lets go.
\<close>

lemma wf_release_dec:
  assumes wf: "wf_state s" and h: "ptrs s h = Some a" "ref_m a = Some c" "ints s c = Some n"
    and eq: "objs s' = objs s" "ints s' = (ints s)(c \<mapsto> n - 1)"
      "ptrs s' = (ptrs s)(h \<mapsto> nullptr)"
  shows "wf_state s'"
proof (rule wf_stateI)
  note D = wf_stateD [OF wf]
  have nb: "ptr_m nullptr = None" "ref_m nullptr = None" by (simp_all add: nullptr_def)
  show "finite (dom (ptrs s'))" using D(1) eq by simp
  show "ptr_m b = None" if "ptrs s' k = Some b" "ref_m b = None" for k b
  proof (cases "k = h")
    case True
    with that eq nb show ?thesis by simp
  next
    case False
    with that eq have "ptrs s k = Some b" by simp
    then show ?thesis using that(2) by (rule D(2))
  qed
  show "objs s' p \<noteq> None" if "ptrs s' k = Some b" "ptr_m b = Some p" for k b p
    using that D(3) nb eq by (auto split: if_splits)
  show "\<exists>m. ints s' d = Some m \<and> int (card (aliases (ptrs s') d)) \<le> m"
    if "ptrs s' k = Some b" "ref_m b = Some d" for k b d
  proof -
    from that nb eq have k: "ptrs s k = Some b" by (auto split: if_splits)
    from D(4) [OF k that(2)] obtain m where m: "ints s d = Some m"
      "int (card (aliases (ptrs s) d)) \<le> m" by blast
    have al: "aliases (ptrs s') d = aliases (ptrs s) d - {h}"
      using nb eq by (simp add: aliases_upd)
    show ?thesis
    proof (cases "d = c")
      case True
      with m h have "m = n" by simp
      with True m al card_aliases_leave [OF D(1) h(1) h(2)] eq show ?thesis by simp
    next
      case False
      with m al card_aliases_drop [OF D(1), of d h] eq show ?thesis by simp
    qed
  qed
  show "ref_m b = ref_m b'"
    if "ptrs s' k = Some b" "ptrs s' k' = Some b'" "ptr_m b = Some p" "ptr_m b' = Some p"
    for k k' b b' p
  proof -
    from that nb eq have "ptrs s k = Some b" and "ptrs s k' = Some b'"
      by (auto split: if_splits)
    then show ?thesis using that(3,4) by (rule D(5))
  qed
qed


text \<open>
  A count that some \<open>smart_ptr\<close> holds is at least 1, and when it is 1 exactly one
  \<open>smart_ptr\<close> holds it.
\<close>

lemma wf_count_pos:
  assumes wf: "wf_state s" and h: "ptrs s h = Some a" "ref_m a = Some c"
  shows "\<exists>n. ints s c = Some n \<and> 1 \<le> n"
proof -
  note D = wf_stateD [OF wf]
  from D(4) [OF h] obtain n where n: "ints s c = Some n"
    "int (card (aliases (ptrs s) c)) \<le> n" by blast
  have "h \<in> aliases (ptrs s) c" using h by (rule aliases_mem)
  moreover have "finite (aliases (ptrs s) c)" using D(1) by (rule finite_aliases)
  ultimately have "card (aliases (ptrs s) c) \<noteq> 0" by auto
  with n show ?thesis by auto
qed

lemma wf_sole_owner:
  assumes wf: "wf_state s" and h: "ptrs s h = Some a" "ref_m a = Some c" "ints s c = Some 1"
    and k: "ptrs s k = Some b" "ref_m b = Some c"
  shows "k = h"
proof (rule ccontr)
  assume ne: "k \<noteq> h"
  note D = wf_stateD [OF wf]
  from D(4) [OF h(1,2)] h(3) have le: "card (aliases (ptrs s) c) \<le> 1" by simp
  have fin: "finite (aliases (ptrs s) c)" using D(1) by (rule finite_aliases)
  have "{h, k} \<subseteq> aliases (ptrs s) c" using h k by (simp add: aliases_mem)
  with fin have "card {h, k} \<le> card (aliases (ptrs s) c)" by (rule card_mono)
  with ne le show False by simp
qed

text \<open>The first branch of the destructor: the sole owner deletes the count and the value.\<close>

lemma wf_release_last:
  assumes wf: "wf_state s" and h: "ptrs s h = Some a" "ref_m a = Some c" "ints s c = Some 1"
    and eq: "objs s' = (case ptr_m a of None \<Rightarrow> objs s | Some p \<Rightarrow> (objs s)(p := None))"
      "ints s' = (ints s)(c := None)" "ptrs s' = (ptrs s)(h \<mapsto> nullptr)"
  shows "wf_state s'"
proof (rule wf_stateI)
  note D = wf_stateD [OF wf]
  have nb: "ptr_m nullptr = None" "ref_m nullptr = None" by (simp_all add: nullptr_def)
  have old: "ptrs s k = Some b \<and> k \<noteq> h" if "ptrs s' k = Some b" "ptr_m b \<noteq> None \<or> ref_m b \<noteq> None"
    for k b using that nb eq by (auto split: if_splits)
  show "finite (dom (ptrs s'))" using D(1) eq by simp
  show "ptr_m b = None" if "ptrs s' k = Some b" "ref_m b = None" for k b
  proof (cases "k = h")
    case True
    with that eq nb show ?thesis by simp
  next
    case False
    with that eq have "ptrs s k = Some b" by simp
    then show ?thesis using that(2) by (rule D(2))
  qed
  show "objs s' p \<noteq> None" if "ptrs s' k = Some b" "ptr_m b = Some p" for k b p
  proof -
    from old that have k: "ptrs s k = Some b" "k \<noteq> h" by simp_all
    have "ptr_m a \<noteq> Some p"
    proof
      assume "ptr_m a = Some p"
      from D(5) [OF k(1) h(1) that(2) this] h(2) have "ref_m b = Some c" by simp
      from wf_sole_owner [OF wf h k(1) this] k(2) show False by simp
    qed
    with D(3) [OF k(1) that(2)] eq show ?thesis by (simp split: option.split)
  qed
  show "\<exists>m. ints s' d = Some m \<and> int (card (aliases (ptrs s') d)) \<le> m"
    if "ptrs s' k = Some b" "ref_m b = Some d" for k b d
  proof -
    from old that have k: "ptrs s k = Some b" "k \<noteq> h" by simp_all
    from D(4) [OF k(1) that(2)] obtain m where m: "ints s d = Some m"
      "int (card (aliases (ptrs s) d)) \<le> m" by blast
    have al: "aliases (ptrs s') d = aliases (ptrs s) d - {h}"
      using nb eq by (simp add: aliases_upd)
    have "d \<noteq> c" using wf_sole_owner [OF wf h k(1)] that(2) k(2) by auto
    with m al card_aliases_drop [OF D(1), of d h] eq show ?thesis by simp
  qed
  show "ref_m b = ref_m b'"
    if "ptrs s' k = Some b" "ptrs s' k' = Some b'" "ptr_m b = Some p" "ptr_m b' = Some p"
    for k k' b b' p
  proof -
    from old that have "ptrs s k = Some b" and "ptrs s k' = Some b'" by simp_all
    then show ?thesis using that(3,4) by (rule D(5))
  qed
qed

text \<open>A \<open>smart_ptr\<close> takes the pointers of another one and the count is incremented.\<close>

lemma wf_acquire:
  assumes wf: "wf_state s"
    and k: "ptrs s k = Some b" "ref_m b = Some c" "ints s c = Some n"
    and eq: "objs s' = objs s" "ints s' = (ints s)(c \<mapsto> n + 1)"
      "ptrs s' = (ptrs s)(h \<mapsto> \<lparr>ptr_m = ptr_m b, ref_m = ref_m b\<rparr>)"
  shows "wf_state s'"
proof (rule wf_stateI)
  note D = wf_stateD [OF wf]
  let ?nb = "\<lparr>ptr_m = ptr_m b, ref_m = ref_m b\<rparr>"
  have old: "\<exists>j b'. ptrs s j = Some b' \<and> ptr_m b' = ptr_m x \<and> ref_m b' = ref_m x"
    if "ptrs s' j = Some x" for j x
  proof (cases "j = h")
    case True
    with that eq have "ptr_m b = ptr_m x \<and> ref_m b = ref_m x" by auto
    with k(1) show ?thesis by blast
  next
    case False
    with that eq have "ptrs s j = Some x" by simp
    then show ?thesis by blast
  qed
  show "finite (dom (ptrs s'))" using D(1) eq by simp
  show "ptr_m x = None" if "ptrs s' j = Some x" "ref_m x = None" for j x
  proof (rule ccontr)
    assume ne: "ptr_m x \<noteq> None"
    with old that(1) obtain i bx where "ptrs s i = Some bx" "ptr_m bx = ptr_m x"
      "ref_m bx = ref_m x" by blast
    with D(2) [of i bx] that(2) ne show False by simp
  qed
  show "objs s' p \<noteq> None" if "ptrs s' j = Some x" "ptr_m x = Some p" for j x p
    using old [OF that(1)] that(2) D(3) eq(1) by metis
  show "\<exists>m. ints s' d = Some m \<and> int (card (aliases (ptrs s') d)) \<le> m"
    if "ptrs s' j = Some x" "ref_m x = Some d" for j x d
  proof -
    from old [OF that(1)] that(2) obtain j' b' where j': "ptrs s j' = Some b'" "ref_m b' = Some d"
      by auto
    from D(4) [OF j'] obtain m where m: "ints s d = Some m"
      "int (card (aliases (ptrs s) d)) \<le> m" by blast
    show ?thesis
    proof (cases "d = c")
      case True
      with m k have mn: "m = n" by simp
      have "aliases (ptrs s') c = insert h (aliases (ptrs s) c)"
        using eq k by (simp add: aliases_upd)
      with True mn m card_aliases_enter [OF D(1), of h c] eq show ?thesis by simp
    next
      case False
      then have "aliases (ptrs s') d = aliases (ptrs s) d - {h}"
        using eq k by (simp add: aliases_upd)
      with False m card_aliases_drop [OF D(1), of d h] eq show ?thesis by simp
    qed
  qed
  show "ref_m x = ref_m y"
    if "ptrs s' j = Some x" "ptrs s' j' = Some y" "ptr_m x = Some p" "ptr_m y = Some p"
    for j j' x y p
  proof -
    from old [OF that(1)] obtain i bx where i: "ptrs s i = Some bx" "ptr_m bx = ptr_m x"
      "ref_m bx = ref_m x" by blast
    from old [OF that(2)] obtain i' by' where i': "ptrs s i' = Some by'" "ptr_m by' = ptr_m y"
      "ref_m by' = ref_m y" by blast
    from D(5) [OF i(1) i'(1), of p] i i' that show ?thesis by simp
  qed
qed


text \<open>A \<open>smart_ptr\<close> takes the pointers of another one, which is left with null pointers.\<close>

lemma wf_steal:
  assumes wf: "wf_state s" and ne: "h \<noteq> k" and k: "ptrs s k = Some b"
    and eq: "objs s' = objs s" "ints s' = ints s"
      "ptrs s' = (ptrs s)(h \<mapsto> \<lparr>ptr_m = ptr_m b, ref_m = ref_m b\<rparr>, k \<mapsto> nullptr)"
  shows "wf_state s'"
proof (rule wf_stateI)
  note D = wf_stateD [OF wf]
  have nb: "ptr_m nullptr = None" "ref_m nullptr = None" by (simp_all add: nullptr_def)
  have old: "\<exists>j b'. ptrs s j = Some b' \<and> ptr_m b' = ptr_m x \<and> ref_m b' = ref_m x"
    if "ptrs s' j = Some x" "ptr_m x \<noteq> None \<or> ref_m x \<noteq> None" for j x
  proof (cases "j = h")
    case True
    with that eq ne have "ptr_m b = ptr_m x \<and> ref_m b = ref_m x" by auto
    with k show ?thesis by blast
  next
    case False
    with that eq nb have "ptrs s j = Some x" by (auto split: if_splits)
    then show ?thesis by blast
  qed
  show "finite (dom (ptrs s'))" using D(1) eq by simp
  show "ptr_m x = None" if "ptrs s' j = Some x" "ref_m x = None" for j x
  proof (rule ccontr)
    assume ne: "ptr_m x \<noteq> None"
    with old that(1) obtain i bx where "ptrs s i = Some bx" "ptr_m bx = ptr_m x"
      "ref_m bx = ref_m x" by blast
    with D(2) [of i bx] that(2) ne show False by simp
  qed
  show "objs s' p \<noteq> None" if "ptrs s' j = Some x" "ptr_m x = Some p" for j x p
    using old [OF that(1)] that(2) D(3) eq(1) by (metis option.distinct(1))
  show "\<exists>m. ints s' d = Some m \<and> int (card (aliases (ptrs s') d)) \<le> m"
    if "ptrs s' j = Some x" "ref_m x = Some d" for j x d
  proof -
    from old [OF that(1)] that(2) obtain j' b' where j': "ptrs s j' = Some b'" "ref_m b' = Some d"
      by auto
    from D(4) [OF j'] obtain m where m: "ints s d = Some m"
      "int (card (aliases (ptrs s) d)) \<le> m" by blast
    have fin: "finite (aliases (ptrs s) d)" using D(1) by (rule finite_aliases)
    have "card (aliases (ptrs s') d) \<le> card (aliases (ptrs s) d)"
    proof (cases "ref_m b = Some d")
      case True
      then have kin: "k \<in> aliases (ptrs s) d" using k by (simp add: aliases_mem)
      have al: "aliases (ptrs s') d = insert h (aliases (ptrs s) d) - {k}"
        using eq True nb by (simp add: aliases_upd)
      have "card (insert h (aliases (ptrs s) d) - {k}) = card (insert h (aliases (ptrs s) d)) - 1"
        using kin fin by (simp add: card_Diff_singleton)
      also have "\<dots> \<le> card (aliases (ptrs s) d)"
        using fin by (simp add: card_insert_if)
      finally show ?thesis using al by simp
    next
      case False
      then have "aliases (ptrs s') d = aliases (ptrs s) d - {h} - {k}"
        using eq nb by (simp add: aliases_upd)
      then have "aliases (ptrs s') d \<subseteq> aliases (ptrs s) d" by auto
      with fin show ?thesis by (simp add: card_mono)
    qed
    with m eq show ?thesis by simp
  qed
  show "ref_m x = ref_m y"
    if "ptrs s' j = Some x" "ptrs s' j' = Some y" "ptr_m x = Some p" "ptr_m y = Some p"
    for j j' x y p
  proof -
    from old [OF that(1)] that(3) obtain i bx where i: "ptrs s i = Some bx" "ptr_m bx = ptr_m x"
      "ref_m bx = ref_m x" by auto
    from old [OF that(2)] that(4) obtain i' by' where i': "ptrs s i' = Some by'"
      "ptr_m by' = ptr_m y" "ref_m by' = ref_m y" by auto
    from D(5) [OF i(1) i'(1), of p] i i' that show ?thesis by simp
  qed
qed

text \<open>
  A \<open>smart_ptr\<close> is built from a raw pointer, null or a value that no \<open>smart_ptr\<close>
  holds, with a newly allocated count of 1.
\<close>

lemma wf_fresh_pair:
  assumes wf: "wf_state s" and raw: "raw_ok s raw" and r: "ints s r = None"
    and eq: "objs s' = objs s" "ints s' = (ints s)(r \<mapsto> 1)"
      "ptrs s' = (ptrs s)(h \<mapsto> \<lparr>ptr_m = raw, ref_m = Some r\<rparr>)"
  shows "wf_state s'"
proof (rule wf_stateI)
  note D = wf_stateD [OF wf]
  have fresh: "ref_m b \<noteq> Some r" if "ptrs s j = Some b" for j b
    using D(4) [OF that] r by auto
  have unown: "ptr_m b \<noteq> Some p" if "ptrs s j = Some b" "raw = Some p" for j b p
    using raw that by (simp add: raw_ok_def unowned_def)
  have live: "objs s p \<noteq> None" if "raw = Some p" for p
    using raw that by (simp add: raw_ok_def)
  have old: "j \<noteq> h \<and> ptrs s j = Some x"
    if "ptrs s' j = Some x" "ref_m x \<noteq> Some r" for j x
    using that eq by (auto split: if_splits)
  have new: "x = \<lparr>ptr_m = raw, ref_m = Some r\<rparr>"
    if "ptrs s' j = Some x" "ref_m x = Some r" for j x
    using that eq fresh by (auto split: if_splits)
  show "finite (dom (ptrs s'))" using D(1) eq by simp
  show "ptr_m x = None" if "ptrs s' j = Some x" "ref_m x = None" for j x
  proof -
    from that old have "ptrs s j = Some x" by simp
    then show ?thesis using that(2) by (rule D(2))
  qed
  show "objs s' q \<noteq> None" if "ptrs s' j = Some x" "ptr_m x = Some q" for j x q
  proof (cases "ref_m x = Some r")
    case True
    with that new have "raw = Some q" by fastforce
    with live eq show ?thesis by simp
  next
    case False
    with that old have "ptrs s j = Some x" by simp
    with D(3) that(2) eq show ?thesis by simp
  qed
  show "\<exists>m. ints s' d = Some m \<and> int (card (aliases (ptrs s') d)) \<le> m"
    if "ptrs s' j = Some x" "ref_m x = Some d" for j x d
  proof (cases "d = r")
    case True
    have "aliases (ptrs s) r = {}" using fresh by (auto simp add: aliases_def)
    then have "aliases (ptrs s') r = {h}" using eq by (simp add: aliases_upd)
    with True eq show ?thesis by simp
  next
    case False
    with that old have j: "ptrs s j = Some x" by simp
    from D(4) [OF j that(2)] obtain m where m: "ints s d = Some m"
      "int (card (aliases (ptrs s) d)) \<le> m" by blast
    have "aliases (ptrs s') d = aliases (ptrs s) d - {h}"
      using eq False by (simp add: aliases_upd)
    with False m card_aliases_drop [OF D(1), of d h] eq show ?thesis by simp
  qed
  show "ref_m x = ref_m y"
    if "ptrs s' j = Some x" "ptrs s' j' = Some y" "ptr_m x = Some q" "ptr_m y = Some q"
    for j j' x y q
  proof (cases "ref_m x = Some r")
    case xr: True
    with that new have rq: "raw = Some q" by fastforce
    have "ref_m y = Some r"
    proof (rule ccontr)
      assume "ref_m y \<noteq> Some r"
      with that old have "ptrs s j' = Some y" by simp
      from unown [OF this rq] that(4) show False by simp
    qed
    with xr show ?thesis by simp
  next
    case xr: False
    with that old have jx: "ptrs s j = Some x" by simp
    have "ref_m y \<noteq> Some r"
    proof
      assume "ref_m y = Some r"
      with that new have "raw = Some q" by fastforce
      from unown [OF jx this] that(3) show False by simp
    qed
    with that old have "ptrs s j' = Some y" by simp
    with jx show ?thesis using that(3,4) by (rule D(5))
  qed
qed

subsection \<open>The allocator touches neither the objects nor the smart pointers\<close>

lemma operator_new_frame [simp]:
  "objs (snd (operator_new p s)) = objs s"
  "ints (snd (operator_new p s)) = ints s"
  "ptrs (snd (operator_new p s)) = ptrs s"
  by (simp_all add: alloc Let_def split: sum.split)

lemma operator_new_result: "fst (operator_new p s) = Inl BadAlloc \<or> fst (operator_new p s) = Inr ()"
  by (simp add: alloc Let_def split: sum.split)

lemma operator_delete_frame [simp]:
  "objs (operator_delete p s) = objs s"
  "ints (operator_delete p s) = ints s"
  "ptrs (operator_delete p s) = ptrs s"
  by (simp_all add: operator_delete_def Let_def)

subsection \<open>Counts that stay below the step number do not wrap\<close>

lemma wrap32_id: "- 2147483648 \<le> x \<Longrightarrow> x < 2147483648 \<Longrightarrow> wrap32 x = x"
  by (simp add: wrap32_def)

lemma counts_le_same:
  assumes "counts_le k s" and "ints s' = ints s"
  shows "counts_le (Suc k) s'"
  using assms by (fastforce simp add: counts_le_def)

lemma counts_le_upd:
  assumes "counts_le k s" and "ints s' = (ints s)(c \<mapsto> m)" and "m \<le> int k + 1"
  shows "counts_le (Suc k) s'"
  using assms by (fastforce simp add: counts_le_def split: if_splits)

lemma counts_le_del:
  assumes "counts_le k s" and "ints s' = (ints s)(c := None)"
  shows "counts_le (Suc k) s'"
  using assms by (fastforce simp add: counts_le_def split: if_splits)

lemma counts_le_weaken: "counts_le k s \<Longrightarrow> counts_le (Suc k) s"
  by (fastforce simp add: counts_le_def)

lemma counts_leD: "counts_le k s \<Longrightarrow> ints s c = Some n \<Longrightarrow> n \<le> int k"
  by (simp add: counts_le_def)

subsection \<open>Every operation keeps the state well formed\<close>

lemma wf_init: "wf_state init_state" "counts_le 0 init_state"
  by (simp_all add: wf_state_def counts_le_def init_state_def)

lemma wf_new_obj:
  assumes "wf_state s" and "counts_le k s" and "new_obj a v s = (res, s')"
  shows "wf_state s' \<and> counts_le (Suc k) s'"
proof -
  obtain r1 s1 where n: "operator_new a s = (r1, s1)" by (cases "operator_new a s")
  from operator_new_frame [of a s] n have f: "objs s1 = objs s" "ints s1 = ints s"
    "ptrs s1 = ptrs s" by simp_all
  from assms(3) n f have eq: "ptrs s' = ptrs s" "ints s' = ints s"
    and mono: "\<And>x. objs s x \<noteq> None \<Longrightarrow> objs s' x \<noteq> None"
    by (auto simp add: new_obj_def split: sum.splits)
  from assms(1) eq mono have "wf_state s'" by (rule wf_frame)
  moreover from assms(2) eq(2) have "counts_le (Suc k) s'" by (rule counts_le_same)
  ultimately show ?thesis by simp
qed

lemma wf_unchanged:
  assumes "wf_state s" and "counts_le k s"
    and "objs s' = objs s" and "ints s' = ints s" and "ptrs s' = ptrs s"
  shows "wf_state s' \<and> counts_le (Suc k) s'"
proof -
  from assms(1,5,4) have "wf_state s'" by (rule wf_frame) (simp add: assms(3))
  moreover from assms(2,4) have "counts_le (Suc k) s'" by (rule counts_le_same)
  ultimately show ?thesis by simp
qed

lemma wf_set_throw:
  "wf_state s \<Longrightarrow> counts_le k s \<Longrightarrow> wf_state (set_throw t s) \<and> counts_le (Suc k) (set_throw t s)"
  by (erule (1) wf_unchanged) (simp_all add: set_throw_def)

lemma wf_set_record:
  "wf_state s \<Longrightarrow> counts_le k s \<Longrightarrow> wf_state (set_record x s) \<and> counts_le (Suc k) (set_record x s)"
  by (erule (1) wf_unchanged) (simp_all add: set_record_def)

lemma wf_end_catch:
  "wf_state s \<Longrightarrow> counts_le k s \<Longrightarrow> wf_state (end_catch m s) \<and> counts_le (Suc k) (end_catch m s)"
  by (erule (1) wf_unchanged) (simp_all add: end_catch_def)

lemma delete_obj_Some:
  assumes "delete_obj (Some a) s = Inr s'"
  shows "objs s' = (objs s)(a := None)" and "ints s' = ints s" and "ptrs s' = ptrs s"
  using assms by (auto simp add: delete_obj_def split: option.splits)

lemma delete_obj_error: "delete_obj p s = Inl e \<Longrightarrow> e = Undefined"
  by (auto simp add: delete_obj_def split: option.splits)

lemma wf_delete_raw:
  assumes "wf_state s" and "counts_le k s" and "unowned s a" and "delete_obj (Some a) s = Inr s'"
  shows "wf_state s' \<and> counts_le (Suc k) s'"
proof -
  note eq = delete_obj_Some [OF assms(4)]
  from assms(1,3) eq(3,2,1) have "wf_state s'" by (rule wf_delete_unowned)
  moreover from assms(2) eq(2) have "counts_le (Suc k) s'" by (rule counts_le_same)
  ultimately show ?thesis by simp
qed

lemma wf_ctor_default:
  assumes "wf_state s" and "counts_le k s" and "ctor_default this s = (res, s')"
  shows "wf_state s' \<and> counts_le (Suc k) s'"
proof -
  have nb: "ptr_m nullptr = None" "ref_m nullptr = None" by (simp_all add: nullptr_def)
  from assms(3) have eq: "objs s' = objs s" "ints s' = ints s"
    "ptrs s' = (ptrs s)(this \<mapsto> nullptr)"
    by (auto simp add: ctor_default_def)
  from assms(1) nb eq have "wf_state s'" by (rule wf_drop)
  moreover from assms(2) eq(2) have "counts_le (Suc k) s'" by (rule counts_le_same)
  ultimately show ?thesis by simp
qed

text \<open>
  The two constructors from a raw pointer differ in what they do when \<open>operator new\<close>
  has thrown; \<open>s1\<close> is the state it leaves.
\<close>

lemma wf_ctor_raw_ok:
  assumes wf: "wf_state s" and le: "counts_le k s" and raw: "raw_ok s raw_ptr"
    and r: "unused s r" and new: "operator_new r s = (Inr u, s1)"
    and s': "s' = s1\<lparr>ints := (ints s1)(r \<mapsto> 1),
                      ptrs := (ptrs s1)(this \<mapsto> \<lparr>ptr_m = raw_ptr, ref_m = Some r\<rparr>)\<rparr>"
  shows "wf_state s' \<and> counts_le (Suc k) s'"
proof -
  from operator_new_frame [of r s] new have f: "objs s1 = objs s" "ints s1 = ints s"
    "ptrs s1 = ptrs s" by simp_all
  from r have r0: "ints s r = None" by (simp add: unused_def)
  from s' f have eq: "objs s' = objs s" "ints s' = (ints s)(r \<mapsto> 1)"
    "ptrs s' = (ptrs s)(this \<mapsto> \<lparr>ptr_m = raw_ptr, ref_m = Some r\<rparr>)"
    by simp_all
  from wf raw r0 eq have "wf_state s'" by (rule wf_fresh_pair)
  moreover from le eq(2) have "counts_le (Suc k) s'" by (rule counts_le_upd) simp
  ultimately show ?thesis by simp
qed

lemma wf_ctor_lref:
  assumes wf: "wf_state s" and le: "counts_le k s" and raw: "raw_ok s raw_ptr"
    and r: "unused s r" and run: "ctor_lref this raw_ptr r s = (res, s')"
  shows "wf_state s' \<and> counts_le (Suc k) s'"
proof -
  obtain r1 s1 where n: "operator_new r s = (r1, s1)" by (cases "operator_new r s")
  from operator_new_frame [of r s] n have f: "objs s1 = objs s" "ints s1 = ints s"
    "ptrs s1 = ptrs s" by simp_all
  show ?thesis
  proof (cases r1)
    case (Inl e)
    with run n have "s' = s1" by (simp add: ctor_lref_def)
    with f have "objs s' = objs s" "ints s' = ints s" "ptrs s' = ptrs s" by simp_all
    with wf le show ?thesis by (rule wf_unchanged)
  next
    case (Inr u)
    with run n have "s' = s1\<lparr>ints := (ints s1)(r \<mapsto> 1),
                      ptrs := (ptrs s1)(this \<mapsto> \<lparr>ptr_m = raw_ptr, ref_m = Some r\<rparr>)\<rparr>"
      by (simp add: ctor_lref_def)
    with wf le raw r n [unfolded Inr] show ?thesis by (rule wf_ctor_raw_ok)
  qed
qed

lemma wf_ctor_rref:
  assumes wf: "wf_state s" and le: "counts_le k s" and raw: "raw_ok s raw_ptr"
    and r: "unused s r" and run: "ctor_rref this raw_ptr r s = (res, s')"
    and ok: "res \<noteq> Inl Undefined"
  shows "wf_state s' \<and> counts_le (Suc k) s'"
proof -
  obtain r1 s1 where n: "operator_new r s = (r1, s1)" by (cases "operator_new r s")
  from operator_new_frame [of r s] n have f: "objs s1 = objs s" "ints s1 = ints s"
    "ptrs s1 = ptrs s" by simp_all
  from wf le f have good1: "wf_state s1 \<and> counts_le (Suc k) s1" by (rule wf_unchanged)
  show ?thesis
  proof (cases r1)
    case (Inl e)
    show ?thesis
    proof (cases raw_ptr)
      case None
      with run n Inl have "s' = s1" by (simp add: ctor_rref_def delete_obj_def)
      with good1 show ?thesis by simp
    next
      case (Some a)
      with run n Inl ok have d: "delete_obj (Some a) s1 = Inr s'"
        by (auto simp add: ctor_rref_def split: sum.splits dest: delete_obj_error)
      note eq = delete_obj_Some [OF d]
      from raw Some f have un: "unowned s a" by (simp add: raw_ok_def)
      from eq f have eq': "ptrs s' = ptrs s" "ints s' = ints s" "objs s' = (objs s)(a := None)"
        by simp_all
      from wf un eq' have "wf_state s'" by (rule wf_delete_unowned)
      moreover from le eq'(2) have "counts_le (Suc k) s'" by (rule counts_le_same)
      ultimately show ?thesis by simp
    qed
  next
    case (Inr u)
    with run n have "s' = s1\<lparr>ints := (ints s1)(r \<mapsto> 1),
                      ptrs := (ptrs s1)(this \<mapsto> \<lparr>ptr_m = raw_ptr, ref_m = Some r\<rparr>)\<rparr>"
      by (simp add: ctor_rref_def)
    with wf le raw r n [unfolded Inr] show ?thesis by (rule wf_ctor_raw_ok)
  qed
qed

text \<open>An increment of a count that some \<open>smart_ptr\<close> holds does not wrap before step \<open>2^31 - 1\<close>.\<close>

lemma held_count_range:
  assumes wf: "wf_state s" and le: "counts_le k s" and k: "int k < 2147483647"
    and h: "ptrs s h = Some b" "ref_m b = Some c" "ints s c = Some n"
  shows "1 \<le> n" and "n \<le> int k" and "wrap32 (n + 1) = n + 1" and "wrap32 (n + - 1) = n - 1"
proof -
  from wf_count_pos [OF wf h(1,2)] h(3) show 1: "1 \<le> n" by simp
  from counts_leD [OF le h(3)] show 2: "n \<le> int k" .
  from 1 2 k show "wrap32 (n + 1) = n + 1" by (simp add: wrap32_id)
  from 1 2 k show "wrap32 (n + - 1) = n - 1" by (simp add: wrap32_id)
qed

lemma wf_ctor_copy:
  assumes wf: "wf_state s" and le: "counts_le k s" and k: "int k < 2147483647"
    and run: "ctor_copy this rhs s = (res, s')" and ok: "res \<noteq> Inl Undefined"
  shows "wf_state s' \<and> counts_le (Suc k) s'"
proof -
  from run ok obtain b c n where b: "ptrs s rhs = Some b" "ref_m b = Some c" "ints s c = Some n"
    and eq0: "objs s' = objs s" "ints s' = (ints s)(c \<mapsto> wrap32 (n + 1))"
      "ptrs s' = (ptrs s)(this \<mapsto> \<lparr>ptr_m = ptr_m b, ref_m = ref_m b\<rparr>)"
    by (auto simp add: ctor_copy_def deref_add_def split: option.splits)
  note rg = held_count_range [OF wf le k b]
  from eq0 rg(3) have eq: "objs s' = objs s" "ints s' = (ints s)(c \<mapsto> n + 1)"
      "ptrs s' = (ptrs s)(this \<mapsto> \<lparr>ptr_m = ptr_m b, ref_m = ref_m b\<rparr>)" by simp_all
  from wf b eq have "wf_state s'" by (rule wf_acquire)
  moreover from le eq(2) have "counts_le (Suc k) s'" by (rule counts_le_upd) (simp add: rg(2))
  ultimately show ?thesis by simp
qed

lemma wf_ctor_move:
  assumes wf: "wf_state s" and le: "counts_le k s" and new: "ptrs s this = None"
    and run: "ctor_move this rhs s = (res, s')" and ok: "res \<noteq> Inl Undefined"
  shows "wf_state s' \<and> counts_le (Suc k) s'"
proof -
  from run ok obtain b where b: "ptrs s rhs = Some b"
    and eq: "objs s' = objs s" "ints s' = ints s"
      "ptrs s' = (ptrs s)(this \<mapsto> \<lparr>ptr_m = ptr_m b, ref_m = ref_m b\<rparr>, rhs \<mapsto> nullptr)"
    by (auto simp add: ctor_move_def split: option.splits)
  from new b have "this \<noteq> rhs" by auto
  with wf have "wf_state s'" using b eq by (rule wf_steal)
  moreover from le eq(2) have "counts_le (Suc k) s'" by (rule counts_le_same)
  ultimately show ?thesis by simp
qed

lemma wf_move_assign:
  assumes wf: "wf_state s" and le: "counts_le k s"
    and run: "move_assign this rhs s = (res, s')" and ok: "res \<noteq> Inl Undefined"
  shows "wf_state s' \<and> counts_le (Suc k) s'"
proof (cases "this = rhs")
  case True
  with run have "s' = s" by (simp add: move_assign_def)
  with wf le show ?thesis by (simp add: counts_le_weaken)
next
  case False
  with run ok obtain b where b: "ptrs s rhs = Some b"
    and eq: "objs s' = objs s" "ints s' = ints s"
      "ptrs s' = (ptrs s)(this \<mapsto> \<lparr>ptr_m = ptr_m b, ref_m = ref_m b\<rparr>, rhs \<mapsto> nullptr)"
    by (auto simp add: move_assign_def split: option.splits)
  from wf False b eq have "wf_state s'" by (rule wf_steal)
  moreover from le eq(2) have "counts_le (Suc k) s'" by (rule counts_le_same)
  ultimately show ?thesis by simp
qed

lemma operator_new_frameD:
  assumes "operator_new p s = (res, s1)"
  shows "objs s1 = objs s" and "ints s1 = ints s" and "ptrs s1 = ptrs s"
  using operator_new_frame [of p s] assms by simp_all

lemma counts_le_keep:
  assumes "counts_le k s" and "ints s' = ints s"
  shows "counts_le k s'"
  using assms by (simp add: counts_le_def)

lemma counts_le_lower:
  assumes "counts_le k s" and "ints s' = (ints s)(c \<mapsto> m)" and "m \<le> int k"
  shows "counts_le k s'"
  using assms by (simp add: counts_le_def)

lemma counts_le_gone:
  assumes "counts_le k s" and "ints s' = (ints s)(c := None)"
  shows "counts_le k s'"
  using assms by (simp add: counts_le_def)

lemma dtor_error: "dtor this s = (Inl e, s1) \<Longrightarrow> e = Undefined"
  by (auto simp add: dtor_def delete_int_def delete_obj_def deref_add_def
      split: option.splits if_splits)

text \<open>The destructor adds to no count, so the bound on the counts is kept as it is.\<close>

lemma wf_dtor:
  assumes wf: "wf_state s" and le: "counts_le k s" and k: "int k < 2147483647"
    and run: "dtor this s = (Inr u, s1)"
  shows "wf_state s1 \<and> counts_le k s1"
proof -
  from run obtain a where a: "ptrs s this = Some a"
    by (auto simp add: dtor_def split: option.splits)
  show ?thesis
  proof (cases "ref_m a")
    case None
    with run a have "s1 = s" by (simp add: dtor_def)
    with wf le show ?thesis by simp
  next
    case (Some c)
    with run a obtain n where n: "ints s c = Some n"
      by (auto simp add: dtor_def split: option.splits)
    note rg = held_count_range [OF wf le k a Some n]
    show ?thesis
    proof (cases "n = 1")
      case True
      with run a Some n
      have eq: "objs s1 = (case ptr_m a of None \<Rightarrow> objs s | Some p \<Rightarrow> (objs s)(p := None))"
        "ints s1 = (ints s)(c := None)" "ptrs s1 = (ptrs s)(this \<mapsto> nullptr)"
        by (auto simp add: dtor_def delete_int_def delete_obj_def split: option.splits)
      from n True have n1: "ints s c = Some 1" by simp
      from wf a Some n1 eq have "wf_state s1" by (rule wf_release_last)
      moreover from le eq(2) have "counts_le k s1" by (rule counts_le_gone)
      ultimately show ?thesis by simp
    next
      case False
      with run a Some n rg(4)
      have eq: "objs s1 = objs s" "ints s1 = (ints s)(c \<mapsto> n - 1)"
        "ptrs s1 = (ptrs s)(this \<mapsto> nullptr)"
        by (auto simp add: dtor_def deref_add_def split: option.splits)
      from wf a Some n eq have "wf_state s1" by (rule wf_release_dec)
      moreover from le eq(2) have "counts_le k s1" by (rule counts_le_lower) (use rg(2) in simp)
      ultimately show ?thesis by simp
    qed
  qed
qed

lemma wf_destroy:
  assumes wf: "wf_state s" and le: "counts_le k s" and k: "int k < 2147483647"
    and run: "destroy this s = (res, s')" and ok: "res \<noteq> Inl Undefined"
  shows "wf_state s' \<and> counts_le (Suc k) s'"
proof (cases "dtor this s")
  case (Pair r1 s1)
  show ?thesis
  proof (cases r1)
    case (Inl e)
    with Pair dtor_error have "e = Undefined" by blast
    with Pair Inl run ok show ?thesis by (simp add: destroy_def)
  next
    case (Inr u)
    from Pair Inr have "dtor this s = (Inr u, s1)" by simp
    from wf_dtor [OF wf le k this] have good1: "wf_state s1" "counts_le k s1" by simp_all
    from Pair Inr run have eq: "objs s' = objs s1" "ints s' = ints s1"
      "ptrs s' = (ptrs s1)(this := None)"
      by (auto simp add: destroy_def)
    from good1(1) eq have "wf_state s'" by (rule wf_remove)
    moreover from good1(2) eq(2) have "counts_le (Suc k) s'" by (rule counts_le_same)
    ultimately show ?thesis by simp
  qed
qed

text \<open>
  The last three statements of the copy assignment overwrite both pointers of \<open>*this\<close>,
  so what \<open>*this\<close> held before them does not matter: \<open>s1\<close> is the state they run in, \<open>sR\<close>
  a well-formed state that differs from it at most in \<open>*this\<close>.
\<close>

lemma wf_adopt:
  assumes wf: "wf_state sR" and le: "counts_le k sR" and k: "int k < 2147483647"
    and agree: "objs s1 = objs sR" "ints s1 = ints sR"
      "\<And>y. (ptrs s1)(this \<mapsto> y) = (ptrs sR)(this \<mapsto> y)"
    and ne: "this \<noteq> rhs"
    and run: "adopt this rhs s1 = (res, s')" and ok: "res \<noteq> Inl Undefined"
  shows "wf_state s' \<and> counts_le (Suc k) s'"
proof -
  from run ok obtain b where b1: "ptrs s1 rhs = Some b"
    by (auto simp add: adopt_def split: option.splits)
  have "ptrs sR rhs = ((ptrs sR)(this \<mapsto> b)) rhs" using ne by simp
  also have "\<dots> = ((ptrs s1)(this \<mapsto> b)) rhs" by (simp only: agree(3))
  also have "\<dots> = Some b" using ne b1 by simp
  finally have b: "ptrs sR rhs = Some b" .
  let ?nb = "\<lparr>ptr_m = ptr_m b, ref_m = ref_m b\<rparr>"
  show ?thesis
  proof (cases "ref_m b")
    case None
    with wf_stateD(2) [OF wf b] have nb: "ptr_m ?nb = None" "ref_m ?nb = None" by simp_all
    from run b1 None have eq: "objs s' = objs sR" "ints s' = ints sR"
      "ptrs s' = (ptrs sR)(this \<mapsto> ?nb)"
      using agree by (auto simp add: adopt_def Let_def)
    from wf nb eq have "wf_state s'" by (rule wf_drop)
    moreover from le eq(2) have "counts_le (Suc k) s'" by (rule counts_le_same)
    ultimately show ?thesis by simp
  next
    case (Some c)
    with run ok b1 obtain n where n: "ints s1 c = Some n"
      by (auto simp add: adopt_def Let_def deref_add_def split: option.splits)
    with agree have nR: "ints sR c = Some n" by simp
    note rg = held_count_range [OF wf le k b Some nR]
    from run b1 Some n rg(3) have eq: "objs s' = objs sR" "ints s' = (ints sR)(c \<mapsto> n + 1)"
      "ptrs s' = (ptrs sR)(this \<mapsto> ?nb)"
      using agree by (auto simp add: adopt_def Let_def deref_add_def)
    from wf b Some nR eq have "wf_state s'" by (rule wf_acquire)
    moreover from le eq(2) have "counts_le (Suc k) s'" by (rule counts_le_upd) (use rg(2) in simp)
    ultimately show ?thesis by simp
  qed
qed

lemma wf_copy_assign:
  assumes wf: "wf_state s" and le: "counts_le k s" and k: "int k < 2147483647"
    and run: "copy_assign this rhs s = (res, s')" and ok: "res \<noteq> Inl Undefined"
  shows "wf_state s' \<and> counts_le (Suc k) s'"
proof (cases "this = rhs")
  case True
  with run have "s' = s" by (simp add: copy_assign_def)
  with wf le show ?thesis by (simp add: counts_le_weaken)
next
  case ne: False
  from run ok ne obtain a where a: "ptrs s this = Some a"
    by (auto simp add: copy_assign_def ref_count_def split: option.splits)
  show ?thesis
  proof (cases "ref_m a")
    case None
    with a have "dtor this s = (Inr (), s)" by (simp add: dtor_def)
    with run ne a None have ad: "adopt this rhs s = (res, s')"
      by (simp add: copy_assign_def ref_count_def)
    from wf le k show ?thesis using _ _ _ ne ad ok by (rule wf_adopt) simp_all
  next
    case (Some c)
    with run ok ne a obtain n where n: "ints s c = Some n"
      by (auto simp add: copy_assign_def ref_count_def split: option.splits)
    note rg = held_count_range [OF wf le k a Some n]
    show ?thesis
    proof (cases "1 < n")
      case True
      let ?s1 = "s\<lparr>ints := (ints s)(c \<mapsto> n - 1)\<rparr>"
      let ?sR = "s\<lparr>ints := (ints s)(c \<mapsto> n - 1), ptrs := (ptrs s)(this \<mapsto> nullptr)\<rparr>"
      from run ne a Some n True rg(4) have ad: "adopt this rhs ?s1 = (res, s')"
        by (simp add: copy_assign_def ref_count_def deref_add_def)
      have wfR: "wf_state ?sR" using wf a Some n by (rule wf_release_dec) simp_all
      have leR: "counts_le k ?sR" using le by (rule counts_le_lower [where c = c and m = "n - 1"])
          (use rg(2) in simp_all)
      from wfR leR k show ?thesis using _ _ _ ne ad ok by (rule wf_adopt) simp_all
    next
      case False
      from run ne a Some n False
      have split: "(case dtor this s of (Inl e, s1) \<Rightarrow> (Inl e, s1)
                     | (Inr u, s1) \<Rightarrow> adopt this rhs s1) = (res, s')"
        by (simp add: copy_assign_def ref_count_def)
      obtain r1 s1 where d: "dtor this s = (r1, s1)" by (cases "dtor this s")
      show ?thesis
      proof (cases r1)
        case (Inl e)
        with d dtor_error have "e = Undefined" by blast
        with d Inl split ok show ?thesis by simp
      next
        case (Inr u)
        from d Inr have "dtor this s = (Inr u, s1)" by simp
        from wf_dtor [OF wf le k this] have good1: "wf_state s1" "counts_le k s1" by simp_all
        from d Inr split have ad: "adopt this rhs s1 = (res, s')" by simp
        from good1 k show ?thesis using _ _ _ ne ad ok by (rule wf_adopt) simp_all
      qed
    qed
  qed
qed

subsection \<open>What clone leaves\<close>

text \<open>
  Either the two free stores and every \<open>smart_ptr\<close> are as before the call, which is the
  case whenever \<open>clone\<close> returns \<open>false\<close> or throws, or \<open>clone\<close> has returned \<open>true\<close> and
  the state is as described. \<open>malloc\<close> is taken to return storage that holds no object.
\<close>

lemma clone_cases:
  assumes wf: "wf_state s" and p: "objs s p = None" and r: "ints s r = None"
    and run: "clone dflt this p r s = (res, s')" and ok: "res \<noteq> Inl Undefined"
  shows "(res \<noteq> Inr True \<and> objs s' = objs s \<and> ints s' = ints s \<and> ptrs s' = ptrs s) \<or>
    (\<exists>a q c n v. ptrs s this = Some a \<and> ptr_m a = Some q \<and> ref_m a = Some c \<and>
       ints s c = Some n \<and> n \<noteq> 1 \<and> objs s q = Some v \<and> res = Inr True \<and>
       objs s' = (objs s)(p \<mapsto> v) \<and> ints s' = (ints s)(r \<mapsto> 1, c \<mapsto> wrap32 (n + - 1)) \<and>
       ptrs s' = (ptrs s)(this \<mapsto> \<lparr>ptr_m = Some p, ref_m = Some r\<rparr>))"
proof -
  from run ok obtain a where a: "ptrs s this = Some a"
    by (auto simp add: clone_def split: option.splits)
  show ?thesis
  proof (cases "ptr_m a")
    case None
    with run a have "s' = s" "res = Inr False" by (simp_all add: clone_def)
    then show ?thesis by simp
  next
    case (Some q)
    from wf_stateD(2) [OF wf a] Some obtain c where c: "ref_m a = Some c" by fastforce
    from wf_stateD(4) [OF wf a c] obtain n where n: "ints s c = Some n" by blast
    from wf_stateD(3) [OF wf a Some] obtain v where v: "objs s q = Some v" by blast
    have pq: "p \<noteq> q" and rc: "r \<noteq> c" using p v r n by auto
    show ?thesis
    proof (cases "n = 1")
      case True
      with run a Some c n have "s' = s" "res = Inr False"
        by (simp_all add: clone_def ref_count_def)
      then show ?thesis by simp
    next
      case n1: False
      obtain r1 s1 where new1: "operator_new p s = (r1, s1)" by (cases "operator_new p s")
      note f1 = operator_new_frameD [OF new1]
      show ?thesis
      proof (cases r1)
        case (Inl e)
        with run a Some c n n1 new1 have "s' = s1" "res = Inl e"
          by (simp_all add: clone_def ref_count_def)
        with f1 show ?thesis by simp
      next
        case Inr1: (Inr u)
        let ?s2 = "s1\<lparr>objs := (objs s1)(p \<mapsto> dflt)\<rparr>"
        obtain r2 s3 where new2: "operator_new r ?s2 = (r2, s3)"
          by (cases "operator_new r ?s2")
        note f2 = operator_new_frameD [OF new2]
        show ?thesis
        proof (cases r2)
          case (Inl e)
          with run a Some c n n1 new1 Inr1 new2 f1 f2
          have "s' = operator_delete p (s3\<lparr>objs := (objs s3)(p := None)\<rparr>)" "res = Inl e"
            by (simp_all add: clone_def ref_count_def Let_def delete_obj_def)
          with f1 f2 p show ?thesis by (simp add: fun_upd_idem)
        next
          case (Inr u2)
          with run a Some c n n1 new1 Inr1 new2 f1 f2 v pq rc
          have "res = Inr True \<and>
            objs s' = (objs s)(p \<mapsto> v) \<and> ints s' = (ints s)(r \<mapsto> 1, c \<mapsto> wrap32 (n + - 1)) \<and>
            ptrs s' = (ptrs s)(this \<mapsto> \<lparr>ptr_m = Some p, ref_m = Some r\<rparr>)"
            by (auto simp add: clone_def ref_count_def Let_def deref_add_def)
          with a Some c n n1 v show ?thesis by blast
        qed
      qed
    qed
  qed
qed

lemma wf_clone:
  assumes wf: "wf_state s" and le: "counts_le k s" and k: "int k < 2147483647"
    and p: "objs s p = None" and r: "ints s r = None"
    and run: "clone dflt this p r s = (res, s')" and ok: "res \<noteq> Inl Undefined"
  shows "wf_state s' \<and> counts_le (Suc k) s'"
  using clone_cases [OF wf p r run ok]
proof (elim disjE exE conjE)
  assume "objs s' = objs s" "ints s' = ints s" "ptrs s' = ptrs s"
  with wf le show ?thesis by (rule wf_unchanged)
next
  fix a q c n v
  assume a: "ptrs s this = Some a" "ptr_m a = Some q" "ref_m a = Some c" "ints s c = Some n"
    "objs s q = Some v"
    and eq0: "objs s' = (objs s)(p \<mapsto> v)"
      "ints s' = (ints s)(r \<mapsto> 1, c \<mapsto> wrap32 (n + - 1))"
      "ptrs s' = (ptrs s)(this \<mapsto> \<lparr>ptr_m = Some p, ref_m = Some r\<rparr>)"
  note rg = held_count_range [OF wf le k a(1,3,4)]
  have rc: "r \<noteq> c" using r a by auto
  from eq0 rg(4) rc have eq: "objs s' = (objs s)(p \<mapsto> v)"
      "ints s' = (ints s)(c \<mapsto> n - 1, r \<mapsto> 1)"
      "ptrs s' = (ptrs s)(this \<mapsto> \<lparr>ptr_m = Some p, ref_m = Some r\<rparr>)"
    by (simp_all add: fun_upd_twist)
  let ?sA = "s\<lparr>objs := (objs s)(p \<mapsto> v)\<rparr>"
  let ?sB = "s\<lparr>objs := (objs s)(p \<mapsto> v), ints := (ints s)(c \<mapsto> n - 1),
               ptrs := (ptrs s)(this \<mapsto> nullptr)\<rparr>"
  have wfA: "wf_state ?sA" using wf by (rule wf_frame) simp_all
  have wfB: "wf_state ?sB" using wfA by (rule wf_release_dec [of ?sA this a c n]) (simp_all add: a)
  have un: "unowned ?sB p"
    unfolding unowned_def
  proof (intro allI impI)
    fix h b assume "ptrs ?sB h = Some b"
    then have "b = nullptr \<or> ptrs s h = Some b" by (auto split: if_splits)
    then show "ptr_m b \<noteq> Some p"
      using wf_stateD(3) [OF wf, of h b p] p by (auto simp add: nullptr_def)
  qed
  have raw: "raw_ok ?sB (Some p)" using un by (simp add: raw_ok_def)
  have "wf_state s'"
    using wfB raw
    by (rule wf_fresh_pair [of ?sB "Some p" r s' this]) (simp_all add: eq rc r)
  moreover have "counts_le (Suc k) s'"
    unfolding counts_le_def
  proof (intro allI impI)
    fix d m assume "ints s' d = Some m"
    with eq(2) have "m = 1 \<or> m = n - 1 \<or> ints s d = Some m" by (auto split: if_splits)
    with rg(2) counts_leD [OF le, of d m] show "m \<le> int (Suc k)" by auto
  qed
  ultimately show ?thesis by simp
qed

subsection \<open>The observers\<close>

lemma throw_frame:
  "objs (snd (throw_null_ptr_exception m s :: (error + 'a) \<times> 'v state)) = objs s"
  "ints (snd (throw_null_ptr_exception m s :: (error + 'a) \<times> 'v state)) = ints s"
  "ptrs (snd (throw_null_ptr_exception m s :: (error + 'a) \<times> 'v state)) = ptrs s"
proof -
  obtain r1 s1 where n: "operator_new m s = (r1, s1)" by (cases "operator_new m s")
  note f = operator_new_frameD [OF n]
  from n f show "objs (snd (throw_null_ptr_exception m s :: (error + 'a) \<times> 'v state)) = objs s"
    and "ints (snd (throw_null_ptr_exception m s :: (error + 'a) \<times> 'v state)) = ints s"
    and "ptrs (snd (throw_null_ptr_exception m s :: (error + 'a) \<times> 'v state)) = ptrs s"
    by (simp_all add: throw_null_ptr_exception_def split: sum.split)
qed

lemma access_frame:
  "objs (snd (operator_star this m s)) = objs s"
  "ints (snd (operator_star this m s)) = ints s"
  "ptrs (snd (operator_star this m s)) = ptrs s"
  "objs (snd (operator_arrow this m s)) = objs s"
  "ints (snd (operator_arrow this m s)) = ints s"
  "ptrs (snd (operator_arrow this m s)) = ptrs s"
  by (simp_all add: operator_star_def operator_arrow_def throw_frame split: option.split)

lemma ref_count_frame: "snd (ref_count this s) = s"
  by (simp add: ref_count_def split: option.split)

subsection \<open>Induction on the steps of the program\<close>

lemma reach_wf:
  "reach dflt k s \<Longrightarrow> int k < 2147483648 \<longrightarrow> wf_state s \<and> counts_le k s"
proof (induction rule: reach.induct)
  case r_init
  show ?case by (simp add: wf_init)
next
  case (r_new_obj k s a v res s')
  show ?case
  proof
    assume "int (Suc k) < 2147483648"
    then have k: "int k < 2147483647" by simp
    with r_new_obj.IH have "wf_state s" "counts_le k s" by simp_all
    then show "wf_state s' \<and> counts_le (Suc k) s'"
      using r_new_obj.hyps(3) by (rule wf_new_obj)
  qed
next
  case (r_set_throw k s t)
  show ?case
  proof
    assume "int (Suc k) < 2147483648"
    then have k: "int k < 2147483647" by simp
    with r_set_throw.IH have "wf_state s" "counts_le k s" by simp_all
    then show "wf_state (set_throw t s) \<and> counts_le (Suc k) (set_throw t s)"
      by (rule wf_set_throw)
  qed
next
  case (r_set_record k s x)
  show ?case
  proof
    assume "int (Suc k) < 2147483648"
    then have k: "int k < 2147483647" by simp
    with r_set_record.IH have "wf_state s" "counts_le k s" by simp_all
    then show "wf_state (set_record x s) \<and> counts_le (Suc k) (set_record x s)"
      by (rule wf_set_record)
  qed
next
  case (r_end_catch k s m)
  show ?case
  proof
    assume "int (Suc k) < 2147483648"
    then have k: "int k < 2147483647" by simp
    with r_end_catch.IH have "wf_state s" "counts_le k s" by simp_all
    then show "wf_state (end_catch m s) \<and> counts_le (Suc k) (end_catch m s)"
      by (rule wf_end_catch)
  qed
next
  case (r_delete_raw k s a s')
  show ?case
  proof
    assume "int (Suc k) < 2147483648"
    then have k: "int k < 2147483647" by simp
    with r_delete_raw.IH have "wf_state s" "counts_le k s" by simp_all
    then show "wf_state s' \<and> counts_le (Suc k) s'"
      using r_delete_raw.hyps(2,3) by (rule wf_delete_raw)
  qed
next
  case (r_ctor_default k s this res s')
  show ?case
  proof
    assume "int (Suc k) < 2147483648"
    then have k: "int k < 2147483647" by simp
    with r_ctor_default.IH have "wf_state s" "counts_le k s" by simp_all
    then show "wf_state s' \<and> counts_le (Suc k) s'"
      using r_ctor_default.hyps(3) by (rule wf_ctor_default)
  qed
next
  case (r_ctor_lref k s this raw_ptr r res s')
  show ?case
  proof
    assume "int (Suc k) < 2147483648"
    then have k: "int k < 2147483647" by simp
    with r_ctor_lref.IH have "wf_state s" "counts_le k s" by simp_all
    then show "wf_state s' \<and> counts_le (Suc k) s'"
      using r_ctor_lref.hyps(3,4,5) by (rule wf_ctor_lref)
  qed
next
  case (r_ctor_rref k s this raw_ptr r res s')
  show ?case
  proof
    assume "int (Suc k) < 2147483648"
    then have k: "int k < 2147483647" by simp
    with r_ctor_rref.IH have "wf_state s" "counts_le k s" by simp_all
    then show "wf_state s' \<and> counts_le (Suc k) s'"
      using r_ctor_rref.hyps(3,4,5,6) by (rule wf_ctor_rref)
  qed
next
  case (r_ctor_copy k s this rhs res s')
  show ?case
  proof
    assume "int (Suc k) < 2147483648"
    then have k: "int k < 2147483647" by simp
    with r_ctor_copy.IH have "wf_state s" "counts_le k s" by simp_all
    then show "wf_state s' \<and> counts_le (Suc k) s'"
      using k r_ctor_copy.hyps(3,4) by (rule wf_ctor_copy)
  qed
next
  case (r_ctor_move k s this rhs res s')
  show ?case
  proof
    assume "int (Suc k) < 2147483648"
    then have k: "int k < 2147483647" by simp
    with r_ctor_move.IH have "wf_state s" "counts_le k s" by simp_all
    then show "wf_state s' \<and> counts_le (Suc k) s'"
      using r_ctor_move.hyps(2,3,4) by (rule wf_ctor_move)
  qed
next
  case (r_copy_assign k s this rhs res s')
  show ?case
  proof
    assume "int (Suc k) < 2147483648"
    then have k: "int k < 2147483647" by simp
    with r_copy_assign.IH have "wf_state s" "counts_le k s" by simp_all
    then show "wf_state s' \<and> counts_le (Suc k) s'"
      using k r_copy_assign.hyps(4,5) by (rule wf_copy_assign)
  qed
next
  case (r_move_assign k s this rhs res s')
  show ?case
  proof
    assume "int (Suc k) < 2147483648"
    then have k: "int k < 2147483647" by simp
    with r_move_assign.IH have "wf_state s" "counts_le k s" by simp_all
    then show "wf_state s' \<and> counts_le (Suc k) s'"
      using r_move_assign.hyps(4,5) by (rule wf_move_assign)
  qed
next
  case (r_clone k s p r this res s')
  show ?case
  proof
    assume "int (Suc k) < 2147483648"
    then have k: "int k < 2147483647" by simp
    from r_clone.hyps(2,3) have fresh: "objs s p = None" "ints s r = None"
      by (simp_all add: unused_def)
    from k r_clone.IH have "wf_state s" "counts_le k s" by simp_all
    then show "wf_state s' \<and> counts_le (Suc k) s'"
      using k fresh r_clone.hyps(5,6) by (rule wf_clone)
  qed
next
  case (r_ref_count k s this res s')
  from r_ref_count.hyps(2) ref_count_frame [of this s] have eq: "s' = s" by simp
  show ?case
  proof
    assume "int (Suc k) < 2147483648"
    with r_ref_count.IH have "wf_state s" "counts_le k s" by simp_all
    then show "wf_state s' \<and> counts_le (Suc k) s'"
      unfolding eq by (simp add: counts_le_weaken)
  qed
next
  case (r_star k s m this res s')
  from r_star.hyps(3) access_frame(1,2,3) [of this m s]
  have eq: "objs s' = objs s" "ints s' = ints s" "ptrs s' = ptrs s" by simp_all
  show ?case
  proof
    assume "int (Suc k) < 2147483648"
    with r_star.IH have "wf_state s" "counts_le k s" by simp_all
    then show "wf_state s' \<and> counts_le (Suc k) s'" using eq by (rule wf_unchanged)
  qed
next
  case (r_arrow k s m this res s')
  from r_arrow.hyps(3) access_frame(4,5,6) [of this m s]
  have eq: "objs s' = objs s" "ints s' = ints s" "ptrs s' = ptrs s" by simp_all
  show ?case
  proof
    assume "int (Suc k) < 2147483648"
    with r_arrow.IH have "wf_state s" "counts_le k s" by simp_all
    then show "wf_state s' \<and> counts_le (Suc k) s'" using eq by (rule wf_unchanged)
  qed
next
  case (r_destroy k s this res s')
  show ?case
  proof
    assume "int (Suc k) < 2147483648"
    then have k: "int k < 2147483647" by simp
    with r_destroy.IH have "wf_state s" "counts_le k s" by simp_all
    then show "wf_state s' \<and> counts_le (Suc k) s'"
      using k r_destroy.hyps(2,3) by (rule wf_destroy)
  qed
qed

section \<open>Evaluating the scenarios\<close>

lemma prologue_eq:
  "prologue = \<lparr>objs = [0 \<mapsto> 314], ints = [1 \<mapsto> 1],
     ptrs = [0 \<mapsto> nullptr, 1 \<mapsto> \<lparr>ptr_m = Some 0, ref_m = Some 1\<rparr>, 2 \<mapsto> nullptr,
             3 \<mapsto> nullptr],
     throwBadAlloc = 0, recordaddrs = False, addrs = {}, mallocd = {0, 1}\<rparr>"
  by (simp add: prologue_def ops prims Let_def insert_commute)

lemma wrap32_small: "wrap32 0 = 0" "wrap32 1 = 1" "wrap32 2 = 2" "wrap32 3 = 3"
  by (simp_all add: wrap32_def)

lemma three_aliases_eq:
  "three_aliases = \<lparr>objs = [0 \<mapsto> 314], ints = [1 \<mapsto> 3],
     ptrs = [0 \<mapsto> nullptr, 1 \<mapsto> \<lparr>ptr_m = Some 0, ref_m = Some 1\<rparr>,
             2 \<mapsto> \<lparr>ptr_m = Some 0, ref_m = Some 1\<rparr>, 3 \<mapsto> \<lparr>ptr_m = Some 0, ref_m = Some 1\<rparr>],
     throwBadAlloc = 0, recordaddrs = False, addrs = {}, mallocd = {0, 1}\<rparr>"
  by (simp add: three_aliases_def prologue_eq ops prims wrap32_small)

lemma recording_eq:
  "recording t = \<lparr>objs = [0 \<mapsto> 314], ints = [1 \<mapsto> 3],
     ptrs = [0 \<mapsto> nullptr, 1 \<mapsto> \<lparr>ptr_m = Some 0, ref_m = Some 1\<rparr>,
             2 \<mapsto> \<lparr>ptr_m = Some 0, ref_m = Some 1\<rparr>, 3 \<mapsto> \<lparr>ptr_m = Some 0, ref_m = Some 1\<rparr>],
     throwBadAlloc = t, recordaddrs = True, addrs = {}, mallocd = {0, 1}\<rparr>"
  by (simp add: recording_def three_aliases_eq set_throw_def set_record_def)

lemma null_built_eq:
  "null_built = \<lparr>objs = Map.empty, ints = [0 \<mapsto> 1],
     ptrs = [0 \<mapsto> \<lparr>ptr_m = None, ref_m = Some 0\<rparr>],
     throwBadAlloc = 0, recordaddrs = False, addrs = {}, mallocd = {0}\<rparr>"
  by (simp add: null_built_def ops prims Let_def)

lemma wrap32_succ: "wrap32 (wrap32 x + 1) = wrap32 (x + 1)"
  by (simp add: wrap32_def mod_simps)

lemma leak_eq:
  "leak n = \<lparr>objs = [0 \<mapsto> 314], ints = [1 \<mapsto> wrap32 (1 + int n)],
     ptrs = [0 \<mapsto> nullptr, 1 \<mapsto> \<lparr>ptr_m = Some 0, ref_m = Some 1\<rparr>, 2 \<mapsto> nullptr,
             3 \<mapsto> nullptr],
     throwBadAlloc = 0, recordaddrs = False, addrs = {}, mallocd = {0, 1}\<rparr>"
proof (induction n)
  case 0
  have "wrap32 (1 + int 0) = 1"
    by (simp add: wrap32_def)
  then show ?case
    by (simp only: leak.simps prologue_eq)
next
  case (Suc n)
  have "wrap32 (wrap32 (1 + int n) + 1) = wrap32 (1 + int (Suc n))"
    by (simp add: wrap32_def mod_simps algebra_simps)
  then show ?case
    by (simp add: Suc ops prims del: of_nat_Suc) (auto simp add: fun_eq_iff)
qed

subsection \<open>The scenarios are reachable\<close>

lemma reach_prologue: "reach (0::int) 5 prologue"
proof -
  let ?s0 = "snd (ctor_default 0 (init_state :: int state))"
  let ?s1 = "snd (new_obj 0 314 ?s0)"
  let ?s2 = "snd (ctor_rref 1 (Some 0) 1 ?s1)"
  let ?s3 = "snd (ctor_default 2 ?s2)"
  have r0: "reach 0 (Suc 0) ?s0"
    by (rule r_ctor_default [OF r_init _ surjective_pairing]) (simp add: init_state_def)
  have r1: "reach 0 (Suc (Suc 0)) ?s1"
    by (rule r_new_obj [OF r0 _ surjective_pairing]) (simp add: ops unused_def)
  have r2: "reach 0 (Suc (Suc (Suc 0))) ?s2"
    by (rule r_ctor_rref [OF r1 _ _ _ surjective_pairing])
      (simp_all add: ops prims unowned_def unused_def raw_ok_def Let_def)
  have r3: "reach 0 (Suc (Suc (Suc (Suc 0)))) ?s3"
    by (rule r_ctor_default [OF r2 _ surjective_pairing]) (simp add: ops prims Let_def)
  have "reach 0 (Suc (Suc (Suc (Suc (Suc 0))))) (snd (ctor_default 3 ?s3))"
    by (rule r_ctor_default [OF r3 _ surjective_pairing]) (simp add: ops prims Let_def)
  moreover have "(5::nat) = Suc (Suc (Suc (Suc (Suc 0))))"
    by simp
  ultimately show ?thesis by (simp only: prologue_def)
qed

lemma reach_leak: "reach (0::int) (5 + 2 * n) (leak n)"
proof (induction n)
  case 0
  show ?case using reach_prologue by simp
next
  case (Suc n)
  let ?a = "snd (copy_assign 2 1 (leak n))"
  have a: "?a = \<lparr>objs = [0 \<mapsto> 314], ints = [1 \<mapsto> wrap32 (wrap32 (1 + int n) + 1)],
     ptrs = [0 \<mapsto> nullptr, 1 \<mapsto> \<lparr>ptr_m = Some 0, ref_m = Some 1\<rparr>,
             2 \<mapsto> \<lparr>ptr_m = Some 0, ref_m = Some 1\<rparr>, 3 \<mapsto> nullptr],
     throwBadAlloc = 0, recordaddrs = False, addrs = {}, mallocd = {0, 1}\<rparr>"
    by (simp add: leak_eq ops prims fun_eq_iff)
  have r1: "reach 0 (Suc (5 + 2 * n)) ?a"
    by (rule r_copy_assign [OF Suc.IH _ _ surjective_pairing])
      (simp_all add: leak_eq ops prims)
  have "reach 0 (Suc (Suc (5 + 2 * n))) (snd (move_assign 2 0 ?a))"
    unfolding a
    by (rule r_move_assign [OF r1 [unfolded a] _ _ surjective_pairing])
      (simp_all add: ops prims)
  then show ?case by simp
qed

lemma reach_three_aliases: "reach (0::int) 7 three_aliases"
proof -
  let ?a1 = "snd (copy_assign 2 1 prologue)"
  have a1: "?a1 = \<lparr>objs = [0 \<mapsto> 314], ints = [1 \<mapsto> 2],
     ptrs = [0 \<mapsto> nullptr, 1 \<mapsto> \<lparr>ptr_m = Some 0, ref_m = Some 1\<rparr>,
             2 \<mapsto> \<lparr>ptr_m = Some 0, ref_m = Some 1\<rparr>, 3 \<mapsto> nullptr],
     throwBadAlloc = 0, recordaddrs = False, addrs = {}, mallocd = {0, 1}\<rparr>"
    by (simp add: prologue_eq ops prims fun_eq_iff wrap32_small)
  have r1: "reach 0 (Suc 5) ?a1"
    by (rule r_copy_assign [OF reach_prologue _ _ surjective_pairing])
      (simp_all add: prologue_eq ops prims)
  have "reach 0 (Suc (Suc 5)) (snd (copy_assign 3 2 ?a1))"
    unfolding a1
    by (rule r_copy_assign [OF r1 [unfolded a1] _ _ surjective_pairing])
      (simp_all add: ops prims)
  then show ?thesis by (simp add: three_aliases_def)
qed

lemma reach_null_built: "reach (0::int) 1 null_built"
proof -
  have "reach (0::int) (Suc 0) (snd (ctor_rref 0 None 0 init_state))"
    by (rule r_ctor_rref [OF r_init _ _ _ surjective_pairing])
      (simp_all add: ops prims unused_def raw_ok_def Let_def)
  then show ?thesis by (simp add: null_built_def)
qed

lemma reachableI: "reach dflt k s \<Longrightarrow> reachable dflt s"
  by (auto simp add: reachable_def)

section \<open>clone\<close>

lemma operator_delete_frees: "p \<notin> mallocd (operator_delete p s)"
  by (simp add: operator_delete_def Let_def)

lemma operator_new_plain:
  assumes "\<not> recordaddrs s"
  shows "fst (operator_new p s) = Inl e \<Longrightarrow> snd (operator_new p s) = s"
    and "fst (operator_new p s) = Inr () \<Longrightarrow>
      mallocd (snd (operator_new p s)) = insert p (mallocd s) \<and>
      \<not> recordaddrs (snd (operator_new p s))"
  using assms by (auto simp add: alloc Let_def split: if_splits)

lemma deref_add_error: "deref_add c k s = Inl e \<Longrightarrow> e = Undefined"
  by (auto simp add: deref_add_def split: option.splits)

text \<open>
  The three ways through the \<open>try\<close> block of \<open>clone\<close>, for a box that holds a value and
  whose count is not 1: the first \<open>new\<close> throws, the second \<open>new\<close> throws and the handler
  deletes the value, or both return and \<open>std::bad_alloc\<close> is not thrown.
\<close>

lemma clone_allocates:
  assumes b: "ptrs s this = Some b" and q: "ptr_m b = Some q"
    and n: "fst (ref_count this s) = Inr n" and n1: "n \<noteq> 1"
    and new1: "operator_new p s = (r1, s1)"
    and new2: "operator_new r (s1\<lparr>objs := (objs s1)(p \<mapsto> dflt)\<rparr>) = (r2, s3)"
  shows "r1 = Inl e \<Longrightarrow> clone dflt this p r s = (Inl e, s1)"
    and "r1 = Inr () \<Longrightarrow> r2 = Inl e \<Longrightarrow>
      clone dflt this p r s = (Inl e, operator_delete p (s3\<lparr>objs := (objs s3)(p := None)\<rparr>))"
    and "r1 = Inr () \<Longrightarrow> r2 = Inr () \<Longrightarrow> fst (clone dflt this p r s) \<noteq> Inl BadAlloc"
proof -
  from n have rc: "ref_count this s = (Inr n, s)"
    using ref_count_frame [of this s] by (simp add: prod_eq_iff)
  note f2 = operator_new_frameD [OF new2]
  show "r1 = Inl e \<Longrightarrow> clone dflt this p r s = (Inl e, s1)"
    using b q rc n1 new1 by (simp add: clone_def)
  show "r1 = Inr () \<Longrightarrow> r2 = Inl e \<Longrightarrow>
      clone dflt this p r s = (Inl e, operator_delete p (s3\<lparr>objs := (objs s3)(p := None)\<rparr>))"
    using b q rc n1 new1 new2 f2 by (simp add: clone_def Let_def delete_obj_def)
  show "r1 = Inr () \<Longrightarrow> r2 = Inr () \<Longrightarrow> fst (clone dflt this p r s) \<noteq> Inl BadAlloc"
    using b q rc n1 new1 new2
    by (auto simp add: clone_def Let_def split: option.splits sum.splits
        dest: deref_add_error)
qed

text \<open>
  C1. Let \<open>clone\<close> get to allocate: the box holds a value and its count is not 1. If the
  first \<open>operator new\<close> (for \<open>new T()\<close>) throws, or the first returns and the second (for
  \<open>new int(1)\<close>) throws, then \<open>std::bad_alloc\<close> reaches the caller; in the first case
  \<open>clone\<close> leaves the state in which \<open>operator new\<close> threw, in the second case the block
  that the first \<open>new\<close> returned has been freed by the handler. Whenever \<open>std::bad_alloc\<close>
  leaves \<open>clone\<close>, the free store of values, the free store of counts and every
  \<open>smart_ptr\<close>, the invoking one and its siblings, are exactly as before the call; and
  when the addresses are not being recorded, the blocks taken from \<open>malloc\<close> are exactly
  those of before the call. This holds for every setting of \<open>throwBadAlloc\<close> and
  \<open>recordaddrs\<close>, and so also when \<open>operator new\<close> throws from \<open>addrs.insert\<close>: then
  \<open>operator new\<close> has not returned the block it took from \<open>malloc\<close>, \<open>clone\<close> never holds it
  and cannot free it, and it stays in \<open>mallocd\<close>.
\<close>

theorem clone_strong_guarantee:
  assumes "ptrs s this = Some b" and "ptr_m b = Some q"
    and "fst (ref_count this s) = Inr n" and "n \<noteq> 1"
    and "objs s p = None"
    and "clone dflt this p r s = (res, s')"
  shows "(fst (operator_new p s) = Inl BadAlloc \<longrightarrow>
       res = Inl BadAlloc \<and> s' = snd (operator_new p s)) \<and>
    (fst (operator_new p s) = Inr () \<and>
     fst (operator_new r ((snd (operator_new p s))
            \<lparr>objs := (objs (snd (operator_new p s)))(p \<mapsto> dflt)\<rparr>)) = Inl BadAlloc \<longrightarrow>
       res = Inl BadAlloc \<and> p \<notin> mallocd s') \<and>
    (res = Inl BadAlloc \<longrightarrow> objs s' = objs s \<and> ints s' = ints s \<and> ptrs s' = ptrs s) \<and>
    (res = Inl BadAlloc \<and> \<not> recordaddrs s \<and> p \<notin> mallocd s \<longrightarrow> mallocd s' = mallocd s)"
proof -
  obtain r1 s1 where new1: "operator_new p s = (r1, s1)" by (cases "operator_new p s")
  let ?s2 = "s1\<lparr>objs := (objs s1)(p \<mapsto> dflt)\<rparr>"
  obtain r2 s3 where new2: "operator_new r ?s2 = (r2, s3)" by (cases "operator_new r ?s2")
  note f1 = operator_new_frameD [OF new1]
  note f2 = operator_new_frameD [OF new2]
  note c = clone_allocates [OF assms(1-4) new1 new2]
  from operator_new_result [of p s] new1 have r1: "r1 = Inl BadAlloc \<or> r1 = Inr ()" by simp
  from operator_new_result [of r ?s2] new2 have r2: "r2 = Inl BadAlloc \<or> r2 = Inr ()" by simp
  from r1 r2 consider (first) "r1 = Inl BadAlloc" | (second) "r1 = Inr ()" "r2 = Inl BadAlloc"
    | (none) "r1 = Inr ()" "r2 = Inr ()" by blast
  then show ?thesis
  proof cases
    case first
    from c(1) [OF first] assms(6) have eq: "res = Inl BadAlloc" "s' = s1" by simp_all
    have "mallocd s' = mallocd s" if "\<not> recordaddrs s"
      using operator_new_plain(1) [OF that, of p BadAlloc] new1 first eq by simp
    with eq first new1 f1 show ?thesis by simp
  next
    case second
    from c(2) [OF second] assms(6)
    have eq: "res = Inl BadAlloc" "s' = operator_delete p (s3\<lparr>objs := (objs s3)(p := None)\<rparr>)"
      by simp_all
    have "mallocd s' = mallocd s" if plain: "\<not> recordaddrs s" and fresh: "p \<notin> mallocd s"
    proof -
      from operator_new_plain(2) [OF plain, of p] new1 second
      have m1: "mallocd s1 = insert p (mallocd s)" and p1: "\<not> recordaddrs ?s2" by simp_all
      from operator_new_plain(1) [OF p1, of r BadAlloc] new2 second have "s3 = ?s2" by simp
      with m1 p1 fresh eq show ?thesis by (simp add: operator_delete_def)
    qed
    with eq second new1 new2 f1 f2 assms(5) show ?thesis
      by (simp add: operator_delete_frees fun_upd_idem)
  next
    case none
    from c(3) [OF none] assms(6) have "res \<noteq> Inl BadAlloc" by simp
    with none new1 new2 show ?thesis by simp
  qed
qed

theorem clone_strong_guarantee_witness:
  "fst (ref_count 1 three_aliases) = Inr 3 \<and> objs three_aliases 2 = None \<and>
   fst (clone 0 1 2 3 (recording 1)) = Inl BadAlloc \<and>
   objs (snd (clone 0 1 2 3 (recording 1))) = objs three_aliases \<and>
   ints (snd (clone 0 1 2 3 (recording 1))) = ints three_aliases \<and>
   ptrs (snd (clone 0 1 2 3 (recording 1))) = ptrs three_aliases \<and>
   fst (clone 0 1 2 3 (recording 2)) = Inl BadAlloc \<and>
   objs (snd (clone 0 1 2 3 (recording 2))) = objs three_aliases \<and>
   ints (snd (clone 0 1 2 3 (recording 2))) = ints three_aliases \<and>
   ptrs (snd (clone 0 1 2 3 (recording 2))) = ptrs three_aliases \<and>
   fst (clone 0 1 2 3 (recording 3)) = Inl BadAlloc \<and>
   2 \<notin> mallocd (snd (clone 0 1 2 3 (recording 3))) \<and>
   objs (snd (clone 0 1 2 3 (recording 3))) = objs three_aliases \<and>
   ints (snd (clone 0 1 2 3 (recording 3))) = ints three_aliases \<and>
   ptrs (snd (clone 0 1 2 3 (recording 3))) = ptrs three_aliases \<and>
   fst (clone 0 1 2 3 (recording 4)) = Inl BadAlloc \<and>
   2 \<notin> mallocd (snd (clone 0 1 2 3 (recording 4))) \<and>
   objs (snd (clone 0 1 2 3 (recording 4))) = objs three_aliases \<and>
   ints (snd (clone 0 1 2 3 (recording 4))) = ints three_aliases \<and>
   ptrs (snd (clone 0 1 2 3 (recording 4))) = ptrs three_aliases \<and>
   fst (clone 0 1 2 3 (set_throw 2 three_aliases)) = Inl BadAlloc \<and>
   mallocd (snd (clone 0 1 2 3 (set_throw 2 three_aliases))) = mallocd three_aliases"
proof -
  let ?b = "\<lparr>ptr_m = Some 0, ref_m = Some 1\<rparr>"
  have b: "ptrs (recording t) 1 = Some ?b"
    and q: "ptr_m ?b = Some 0"
    and n: "fst (ref_count 1 (recording t)) = Inr 3"
    and p: "objs (recording t) 2 = None"
    and same: "objs (recording t) = objs three_aliases"
      "ints (recording t) = ints three_aliases"
      "ptrs (recording t) = ptrs three_aliases"
    for t
    by (simp_all add: recording_eq three_aliases_eq ref_count_def)
  have n1: "(3::int) \<noteq> 1" by simp
  have b': "ptrs (set_throw 2 three_aliases) 1 = Some ?b"
    and n': "fst (ref_count 1 (set_throw 2 three_aliases)) = Inr 3"
    and p': "objs (set_throw 2 three_aliases) 2 = None"
    and f5: "fst (operator_new 2 (set_throw 2 three_aliases)) = Inr () \<and>
      fst (operator_new 3 ((snd (operator_new 2 (set_throw 2 three_aliases)))
        \<lparr>objs := (objs (snd (operator_new 2 (set_throw 2 three_aliases))))(2 \<mapsto> 0)\<rparr>)) =
        Inl BadAlloc"
    and m5: "\<not> recordaddrs (set_throw 2 three_aliases) \<and> 2 \<notin> mallocd (set_throw 2 three_aliases)"
    and same': "mallocd (set_throw 2 three_aliases) = mallocd three_aliases"
    by (simp_all add: three_aliases_eq set_throw_def ref_count_def alloc Let_def)
  note g5 = clone_strong_guarantee [OF b' q n' n1 p' surjective_pairing, of 0 3]
  from g5 f5 have r5: "fst (clone 0 1 2 3 (set_throw 2 three_aliases)) = Inl BadAlloc" by blast
  from g5 r5 m5 have r6: "mallocd (snd (clone 0 1 2 3 (set_throw 2 three_aliases))) =
      mallocd (set_throw 2 three_aliases)" by blast
  have f1: "fst (operator_new 2 (recording 1)) = Inl BadAlloc"
    and f2: "fst (operator_new 2 (recording 2)) = Inl BadAlloc"
    and f3: "fst (operator_new 2 (recording 3)) = Inr () \<and>
      fst (operator_new 3 ((snd (operator_new 2 (recording 3)))
        \<lparr>objs := (objs (snd (operator_new 2 (recording 3))))(2 \<mapsto> 0)\<rparr>)) = Inl BadAlloc"
    and f4: "fst (operator_new 2 (recording 4)) = Inr () \<and>
      fst (operator_new 3 ((snd (operator_new 2 (recording 4)))
        \<lparr>objs := (objs (snd (operator_new 2 (recording 4))))(2 \<mapsto> 0)\<rparr>)) = Inl BadAlloc"
    by (simp_all add: recording_eq alloc Let_def)
  note g = clone_strong_guarantee [OF b q n n1 p surjective_pairing, of _ 0 3]
  note g1 = g [of 1] and g2 = g [of 2] and g3 = g [of 3] and g4 = g [of 4]
  have c: "fst (ref_count 1 three_aliases) = Inr 3" and o: "objs three_aliases 2 = None"
    by (simp_all add: three_aliases_eq ref_count_def)
  from g1 f1 have r1: "fst (clone 0 1 2 3 (recording 1)) = Inl BadAlloc" by blast
  from g2 f2 have r2: "fst (clone 0 1 2 3 (recording 2)) = Inl BadAlloc" by blast
  from g3 f3 have r3: "fst (clone 0 1 2 3 (recording 3)) = Inl BadAlloc"
    "2 \<notin> mallocd (snd (clone 0 1 2 3 (recording 3)))" by blast+
  from g4 f4 have r4: "fst (clone 0 1 2 3 (recording 4)) = Inl BadAlloc"
    "2 \<notin> mallocd (snd (clone 0 1 2 3 (recording 4)))" by blast+
  from g1 r1 g2 r2 g3 r3 g4 r4 r5 r6 c o show ?thesis by (simp add: same same')
qed

text \<open>
  Case 23 of the test driver: with \<open>recordaddrs\<close> set and \<open>throwBadAlloc\<close> 2, the
  \<open>operator new\<close> that \<open>clone\<close> calls for \<open>new T()\<close> throws from \<open>addrs.insert\<close>, after
  \<open>malloc\<close>: the block stays in \<open>mallocd\<close> and \<open>recordaddrs\<close> stays cleared.
\<close>

lemma recording_throw_keeps_block:
  "fst (operator_new 2 (recording 2)) = Inl BadAlloc \<and>
   mallocd (snd (operator_new 2 (recording 2))) = insert 2 (mallocd (recording 2)) \<and>
   \<not> recordaddrs (snd (operator_new 2 (recording 2)))"
  by (simp add: recording_eq alloc Let_def)





section \<open>Constructors from a raw value\<close>



section \<open>Moving\<close>

text \<open>
  C9. Let \<open>rhs\<close> be a live \<open>smart_ptr\<close> and \<open>this\<close> a different one. The move constructor
  and the move assignment (on a live \<open>this\<close>) return normally; afterwards
  \<open>rhs.ref_count()\<close> is 0 and \<open>this->ref_count()\<close> is what \<open>rhs.ref_count()\<close> was before;
  \<open>rhs\<close> holds two null pointers, which is \<open>Empty\<close>; the free store of values and of
  counts is unchanged and \<open>operator new\<close> has not been called (\<open>throwBadAlloc\<close> and the
  blocks taken from \<open>malloc\<close> are unchanged). Move-assigning a \<open>smart_ptr\<close> to itself
  leaves the whole state as it was.
\<close>

theorem move_transfers:
  assumes "ptrs s rhs = Some b" and "this \<noteq> rhs"
  shows "(ctor_move this rhs s = (res, s') \<longrightarrow>
            res = Inr () \<and> ptrs s' rhs = Some nullptr \<and> fst (ref_count rhs s') = Inr 0 \<and>
            fst (ref_count this s') = fst (ref_count rhs s) \<and>
            objs s' = objs s \<and> ints s' = ints s \<and> throwBadAlloc s' = throwBadAlloc s \<and>
            mallocd s' = mallocd s) \<and>
         (ptrs s this \<noteq> None \<and> move_assign this rhs s = (res, s') \<longrightarrow>
            res = Inr () \<and> ptrs s' rhs = Some nullptr \<and> fst (ref_count rhs s') = Inr 0 \<and>
            fst (ref_count this s') = fst (ref_count rhs s) \<and>
            objs s' = objs s \<and> ints s' = ints s \<and> throwBadAlloc s' = throwBadAlloc s \<and>
            mallocd s' = mallocd s) \<and>
         move_assign rhs rhs s = (Inr (), s) \<and> Empty nullptr"
  using assms
  by (auto simp add: ctor_move_def move_assign_def ref_count_def nullptr_def Empty_def
      split: option.splits)

theorem move_transfers_witness:
  "fst (ref_count 1 three_aliases) = Inr 3 \<and>
   fst (ctor_move 4 1 three_aliases) = Inr () \<and>
   fst (ref_count 1 (snd (ctor_move 4 1 three_aliases))) = Inr 0 \<and>
   fst (ref_count 4 (snd (ctor_move 4 1 three_aliases))) = Inr 3 \<and>
   fst (move_assign 0 1 three_aliases) = Inr () \<and>
   fst (ref_count 1 (snd (move_assign 0 1 three_aliases))) = Inr 0 \<and>
   fst (ref_count 0 (snd (move_assign 0 1 three_aliases))) = Inr 3 \<and>
   move_assign 1 1 three_aliases = (Inr (), three_aliases)"
proof -
  have a: "ptrs three_aliases 1 = Some \<lparr>ptr_m = Some 0, ref_m = Some 1\<rparr>"
    and c: "fst (ref_count 1 three_aliases) = Inr 3"
    and d: "ptrs three_aliases 0 \<noteq> None"
    by (simp_all add: three_aliases_eq ref_count_def)
  have n4: "(4::nat) \<noteq> 1" and n0: "(0::nat) \<noteq> 1" by simp_all
  from move_transfers [OF a n4, of "fst (ctor_move 4 1 three_aliases)"
      "snd (ctor_move 4 1 three_aliases)"]
    move_transfers [OF a n0, of "fst (move_assign 0 1 three_aliases)"
      "snd (move_assign 0 1 three_aliases)"]
    c d
  show ?thesis by simp
qed

text \<open>
  C3. The move assignment does not release what the destination held. In the state
  \<open>dsp3 = dsp2 = dsp1\<close>, where the count is 3, \<open>dsp3 = std::move(dsp0)\<close> leaves
  \<open>dsp1.ref_count()\<close> at 3, where the copy assignment \<open>dsp3 = dsp0\<close> of case 25 makes
  it 2. In the prologue, where \<open>dsp1\<close> is the sole owner, \<open>dsp1 = std::move(dsp0)\<close>
  empties \<open>dsp1\<close> and neither deletes the value nor the count, where \<open>dsp1 = dsp0\<close>
  deletes both.
\<close>

theorem move_assign_skips_release:
  "fst (ref_count 1 three_aliases) = Inr 3 \<and>
   fst (ref_count 1 (snd (move_assign 3 0 three_aliases))) = Inr 3 \<and>
   fst (ref_count 1 (snd (copy_assign 3 0 three_aliases))) = Inr 2 \<and>
   fst (ref_count 1 prologue) = Inr 1 \<and>
   ptrs (snd (move_assign 1 0 prologue)) 1 = Some nullptr \<and>
   objs (snd (move_assign 1 0 prologue)) 0 = Some 314 \<and>
   ints (snd (move_assign 1 0 prologue)) 1 = Some 1 \<and>
   objs (snd (copy_assign 1 0 prologue)) 0 = None \<and>
   ints (snd (copy_assign 1 0 prologue)) 1 = None"
  by (simp add: three_aliases_eq prologue_eq ops prims wrap32_def)

section \<open>Copying\<close>

text \<open>
  C4. The copy constructor increments through \<open>ref_\<close> without a test: copy-constructing
  from the default-constructed, \<open>Empty\<close> box writes through a null pointer. The copy
  assignment from the same box tests \<open>ref_ != nullptr\<close> and returns normally.
\<close>

theorem copy_ctor_from_empty_undefined:
  "fst (ctor_copy 1 0 (snd (ctor_default 0 (init_state :: int state)))) = Inl Undefined \<and>
   fst (copy_assign 1 0 (snd (ctor_default 1 (snd (ctor_default 0 (init_state :: int state))))))
     = Inr ()"
  by (simp add: ops prims)

section \<open>The count and the number of aliases\<close>

text \<open>
  C2. After \<open>dsp3 = dsp2 = dsp1\<close> and then \<open>dsp3 = std::move(dsp0)\<close>, a reachable state,
  \<open>dsp1\<close> is \<open>Occupied\<close> and \<open>dsp1.ref_count()\<close> is 3, while the \<open>smart_ptr\<close> objects that
  hold its value and its count are \<open>dsp1\<close> and \<open>dsp2\<close>, two of them: the move assignment
  has not released what \<open>dsp3\<close> held.
\<close>

theorem count_exceeds_aliases:
  "reachable (0::int) (snd (move_assign 3 0 three_aliases)) \<and>
   ptrs (snd (move_assign 3 0 three_aliases)) 1 = Some \<lparr>ptr_m = Some 0, ref_m = Some 1\<rparr> \<and>
   ref_count 1 (snd (move_assign 3 0 three_aliases)) = (Inr 3, snd (move_assign 3 0 three_aliases)) \<and>
   aliases (ptrs (snd (move_assign 3 0 three_aliases))) 1 = {1, 2} \<and>
   card (aliases (ptrs (snd (move_assign 3 0 three_aliases))) 1) = 2"
proof -
  let ?s = "snd (move_assign 3 0 three_aliases)"
  have "reach 0 (Suc 7) ?s"
    by (rule r_move_assign [OF reach_three_aliases _ _ surjective_pairing])
      (simp_all add: three_aliases_eq move_assign_def)
  then have r: "reachable 0 ?s" by (rule reachableI)
  have p: "ptrs ?s = [0 \<mapsto> nullptr, 1 \<mapsto> \<lparr>ptr_m = Some 0, ref_m = Some 1\<rparr>,
             2 \<mapsto> \<lparr>ptr_m = Some 0, ref_m = Some 1\<rparr>, 3 \<mapsto> nullptr]"
    and i: "ints ?s 1 = Some 3"
    by (simp_all add: three_aliases_eq move_assign_def nullptr_def fun_eq_iff)
  have a: "aliases (ptrs ?s) 1 = {1, 2}"
    unfolding p by (auto simp add: aliases_def nullptr_def split: if_splits)
  have c: "ref_count 1 ?s = (Inr 3, ?s)"
    using i by (simp add: ref_count_def p)
  from r p a c show ?thesis by simp
qed

section \<open>ref\_count\<close>

text \<open>
  C8 as the specification states it fails. In the prologue \<open>dsp1\<close> holds the value
  with the count 1. Each round \<open>dsp2 = dsp1; dsp2 = std::move(dsp0);\<close> increments the
  count and, the move assignment releasing nothing, never decrements it. The count is a
  32-bit \<open>int\<close>: after 4294967295 rounds it has wrapped around to 0, and \<open>dsp1\<close>, which
  is \<open>Occupied\<close> and not \<open>Empty\<close>, has \<open>ref_count()\<close> 0.
\<close>

theorem ref_count_zero_counterexample:
  "reach (0::int) 8589934595 (leak 4294967295) \<and>
   ptrs (leak 4294967295) 1 = Some \<lparr>ptr_m = Some 0, ref_m = Some 1\<rparr> \<and>
   Occupied \<lparr>ptr_m = Some 0, ref_m = Some 1\<rparr> \<and>
   \<not> Empty \<lparr>ptr_m = Some 0, ref_m = Some 1\<rparr> \<and>
   ref_count 1 (leak 4294967295) = (Inr 0, leak 4294967295)"
proof -
  have "reach (0::int) (5 + 2 * 4294967295) (leak 4294967295)"
    by (rule reach_leak)
  then have r: "reach (0::int) 8589934595 (leak 4294967295)" by simp
  have w: "wrap32 (1 + int 4294967295) = 0" by (simp add: wrap32_def)
  have p: "ptrs (leak 4294967295) 1 = Some \<lparr>ptr_m = Some 0, ref_m = Some 1\<rparr>"
    by (simp add: leak_eq)
  have i: "ints (leak 4294967295) 1 = Some 0"
    using w by (simp add: leak_eq)
  have c: "ref_count 1 (leak 4294967295) = (Inr 0, leak 4294967295)"
    using p i by (simp add: ref_count_def)
  from r p c show ?thesis by (simp add: Occupied_def Empty_def)
qed

text \<open>
  C8, amended. For every live \<open>smart_ptr\<close>, \<open>ref_count()\<close> leaves the whole state as it
  was (it does not call \<open>operator new\<close>), returns 0 when the box is \<open>Empty\<close>, and returns
  the count that \<open>ref_\<close> points to when the box holds one. In a state that the program
  reaches in fewer than \<open>2^31\<close> steps, so that no count has had the time to overflow,
  it returns a number (its behaviour is defined, it throws nothing), the number is 0 if
  and only if the box is \<open>Empty\<close>, and on an \<open>Occupied\<close> box it is at least 1.
\<close>

theorem ref_count_zero_iff_empty:
  assumes "ptrs s h = Some b"
  shows "snd (ref_count h s) = s \<and>
    (Empty b \<longrightarrow> fst (ref_count h s) = Inr 0) \<and>
    (\<forall>c n. ref_m b = Some c \<and> ints s c = Some n \<longrightarrow> fst (ref_count h s) = Inr n) \<and>
    (reach dflt k s \<and> int k < 2147483648 \<longrightarrow>
       (\<exists>n. ref_count h s = (Inr n, s) \<and> (n = 0 \<longleftrightarrow> Empty b) \<and> (Occupied b \<longrightarrow> 1 \<le> n)))"
proof -
  have bounded: "\<exists>n. ref_count h s = (Inr n, s) \<and> (n = 0 \<longleftrightarrow> Empty b) \<and> (Occupied b \<longrightarrow> 1 \<le> n)"
    if r: "reach dflt k s" and k: "int k < 2147483648"
  proof -
    from reach_wf [OF r] k have wf: "wf_state s" by simp
    show ?thesis
    proof (cases "ref_m b")
      case None
      with wf_stateD(2) [OF wf assms] have "Empty b" and "\<not> Occupied b"
        by (simp_all add: Empty_def Occupied_def)
      with None assms show ?thesis by (simp add: ref_count_def)
    next
      case (Some c)
      from wf_count_pos [OF wf assms Some] obtain n where n: "ints s c = Some n" "1 \<le> n"
        by blast
      from Some have "\<not> Empty b" by (simp add: Empty_def)
      with Some n assms show ?thesis by (simp add: ref_count_def)
    qed
  qed
  have "snd (ref_count h s) = s" by (rule ref_count_frame)
  moreover have "Empty b \<longrightarrow> fst (ref_count h s) = Inr 0"
    using assms by (simp add: ref_count_def Empty_def)
  moreover have "\<forall>c n. ref_m b = Some c \<and> ints s c = Some n \<longrightarrow> fst (ref_count h s) = Inr n"
    using assms by (simp add: ref_count_def)
  ultimately show ?thesis using bounded by blast
qed

theorem ref_count_zero_iff_empty_witness:
  "reach (0::int) 7 three_aliases \<and> int 7 < 2147483648 \<and>
   ptrs three_aliases 0 = Some nullptr \<and> Empty nullptr \<and>
   ref_count 0 three_aliases = (Inr 0, three_aliases) \<and>
   ptrs three_aliases 1 = Some \<lparr>ptr_m = Some 0, ref_m = Some 1\<rparr> \<and>
   Occupied \<lparr>ptr_m = Some 0, ref_m = Some 1\<rparr> \<and> ints three_aliases 1 = Some 3 \<and>
   ref_count 1 three_aliases = (Inr 3, three_aliases) \<and>
   reach (0::int) 1 null_built \<and>
   ptrs null_built 0 = Some \<lparr>ptr_m = None, ref_m = Some 0\<rparr> \<and>
   \<not> Empty \<lparr>ptr_m = None, ref_m = Some 0\<rparr> \<and>
   ref_count 0 null_built = (Inr 1, null_built)"
proof -
  let ?b = "\<lparr>ptr_m = Some 0, ref_m = Some 1\<rparr>"
  let ?n = "\<lparr>ptr_m = None, ref_m = Some 0\<rparr>"
  have k7: "int 7 < 2147483648" and k1: "int 1 < 2147483648" by simp_all
  have p0: "ptrs three_aliases 0 = Some nullptr" and p1: "ptrs three_aliases 1 = Some ?b"
    and i: "ref_m ?b = Some 1 \<and> ints three_aliases 1 = Some 3"
    by (simp_all add: three_aliases_eq)
  have q0: "ptrs null_built 0 = Some ?n" and j: "ref_m ?n = Some 0 \<and> ints null_built 0 = Some 1"
    by (simp_all add: null_built_eq)
  have e: "Empty nullptr" and o: "Occupied ?b" and ne: "\<not> Empty ?n"
    by (simp_all add: Empty_def Occupied_def nullptr_def)
  note a0 = ref_count_zero_iff_empty [OF p0, of 0 7]
  note a1 = ref_count_zero_iff_empty [OF p1, of 0 7]
  note a2 = ref_count_zero_iff_empty [OF q0, of 0 1]
  from a0 e have "fst (ref_count 0 three_aliases) = Inr 0" by blast
  with a0 have c0: "ref_count 0 three_aliases = (Inr 0, three_aliases)"
    by (simp add: prod_eq_iff)
  from a1 [THEN conjunct2, THEN conjunct2, THEN conjunct1, rule_format, OF i]
  have "fst (ref_count 1 three_aliases) = Inr 3" .
  with a1 have c1: "ref_count 1 three_aliases = (Inr 3, three_aliases)"
    by (simp add: prod_eq_iff)
  from a2 [THEN conjunct2, THEN conjunct2, THEN conjunct1, rule_format, OF j]
  have "fst (ref_count 0 null_built) = Inr 1" .
  with a2 have c2: "ref_count 0 null_built = (Inr 1, null_built)"
    by (simp add: prod_eq_iff)
  from a0 [THEN conjunct2, THEN conjunct2, THEN conjunct2, rule_format,
      OF conjI [OF reach_three_aliases k7]] c0 e
  have "(0::int) = 0 \<longleftrightarrow> Empty nullptr" by simp
  from reach_three_aliases reach_null_built k7 p0 p1 q0 e o ne c0 c1 c2 i show ?thesis by simp
qed

section \<open>Access\<close>

text \<open>
  C10. \<open>operator*\<close> and \<open>operator->\<close>, whether they return or throw, leave every
  \<open>smart_ptr\<close> (the value pointer and the count pointer of the box and of every other
  one), every count and every value as they were. (When they throw, the constructor
  of the exception calls \<open>operator new\<close> for the message, which changes the globals of the
  allocator and nothing else.)
\<close>

theorem access_modifies_nothing:
  "ptrs (snd (operator_star this m s)) = ptrs s \<and> ints (snd (operator_star this m s)) = ints s \<and>
   objs (snd (operator_star this m s)) = objs s \<and>
   ptrs (snd (operator_arrow this m s)) = ptrs s \<and> ints (snd (operator_arrow this m s)) = ints s \<and>
   objs (snd (operator_arrow this m s)) = objs s"
  by (simp add: access_frame)

text \<open>
  C7 as the specification states it fails twice. A \<open>smart_ptr\<close> built from a
  null raw pointer, \<open>smart_ptr<int> p{nullptr}\<close>, holds a count and no value: it is not
  \<open>Empty\<close>, its \<open>ref_count()\<close> is 1, and both operators throw \<open>null_ptr_exception\<close>. And on
  the \<open>Empty\<close> box \<open>dsp0\<close> of the prologue, with \<open>throwBadAlloc\<close> set to 1, both operators
  throw \<open>std::bad_alloc\<close>, from the allocation of the message of the exception, in
  place of \<open>null_ptr_exception\<close>.
\<close>

theorem access_raises_counterexample:
  "reach (0::int) 1 null_built \<and>
   ptrs null_built 0 = Some \<lparr>ptr_m = None, ref_m = Some 0\<rparr> \<and>
   \<not> Empty \<lparr>ptr_m = None, ref_m = Some 0\<rparr> \<and>
   fst (ref_count 0 null_built) = Inr 1 \<and>
   fst (operator_star 0 1 null_built) = Inl NullPtrException \<and>
   fst (operator_arrow 0 1 null_built) = Inl NullPtrException \<and>
   reach (0::int) 6 (set_throw 1 prologue) \<and>
   ptrs (set_throw 1 prologue) 0 = Some nullptr \<and> Empty nullptr \<and>
   fst (operator_star 0 2 (set_throw 1 prologue)) = Inl BadAlloc \<and>
   fst (operator_arrow 0 2 (set_throw 1 prologue)) = Inl BadAlloc"
proof -
  have "reach (0::int) (Suc 5) (set_throw 1 prologue)"
    using reach_prologue by (rule r_set_throw)
  then have r: "reach (0::int) 6 (set_throw 1 prologue)" by simp
  have "ptrs null_built 0 = Some \<lparr>ptr_m = None, ref_m = Some 0\<rparr> \<and>
   \<not> Empty \<lparr>ptr_m = None, ref_m = Some 0\<rparr> \<and>
   fst (ref_count 0 null_built) = Inr 1 \<and>
   fst (operator_star 0 1 null_built) = Inl NullPtrException \<and>
   fst (operator_arrow 0 1 null_built) = Inl NullPtrException"
    by (simp add: null_built_eq Empty_def ref_count_def operator_star_def operator_arrow_def
        throw_null_ptr_exception_def alloc Let_def)
  moreover have "ptrs (set_throw 1 prologue) 0 = Some nullptr \<and> Empty nullptr \<and>
   fst (operator_star 0 2 (set_throw 1 prologue)) = Inl BadAlloc \<and>
   fst (operator_arrow 0 2 (set_throw 1 prologue)) = Inl BadAlloc"
    by (simp add: prologue_eq set_throw_def Empty_def nullptr_def operator_star_def
        operator_arrow_def throw_null_ptr_exception_def alloc Let_def)
  ultimately show ?thesis using reach_null_built r by simp
qed

lemma throw_null_ptr_exception_result:
  "fst (operator_new m s) = Inr () \<Longrightarrow>
     fst (throw_null_ptr_exception m s :: (error + 'a) \<times> 'v state) = Inl NullPtrException"
  "fst (operator_new m s) = Inl e \<Longrightarrow>
     fst (throw_null_ptr_exception m s :: (error + 'a) \<times> 'v state) = Inl e"
  "isl (fst (throw_null_ptr_exception m s :: (error + 'a) \<times> 'v state))"
  by (cases "operator_new m s"; auto simp add: throw_null_ptr_exception_def split: sum.split)+

text \<open>
  C7, amended. For every live \<open>smart_ptr\<close>, \<open>operator*\<close> throws if and only if the box
  holds no value (\<open>ptr_\<close> is null), and so does \<open>operator->\<close>; an \<open>Empty\<close> box holds no
  value, and neither does one built from a null raw pointer. What is thrown is
  \<open>null_ptr_exception\<close> when \<open>operator new\<close> returns the block for its message, and
  \<open>std::bad_alloc\<close> when \<open>operator new\<close> throws. On an \<open>Occupied\<close> box both operators return
  \<open>ptr_\<close> and leave the whole state as it was. In a state that the program reaches in
  fewer than \<open>2^31\<close> steps, a box holds a value exactly when it is \<open>Occupied\<close>, and the
  value is a live object.
\<close>

theorem access_raises_iff_no_value:
  assumes "ptrs s h = Some b"
  shows "(isl (fst (operator_star h m s)) \<longleftrightarrow> ptr_m b = None) \<and>
    (isl (fst (operator_arrow h m s)) \<longleftrightarrow> ptr_m b = None) \<and>
    (Empty b \<longrightarrow> ptr_m b = None) \<and>
    (ptr_m b = None \<and> fst (operator_new m s) = Inr () \<longrightarrow>
       fst (operator_star h m s) = Inl NullPtrException \<and>
       fst (operator_arrow h m s) = Inl NullPtrException) \<and>
    (ptr_m b = None \<and> fst (operator_new m s) = Inl BadAlloc \<longrightarrow>
       fst (operator_star h m s) = Inl BadAlloc \<and>
       fst (operator_arrow h m s) = Inl BadAlloc) \<and>
    (Occupied b \<longrightarrow>
       (\<exists>p. operator_star h m s = (Inr p, s) \<and> operator_arrow h m s = (Inr p, s) \<and>
            ptr_m b = Some p)) \<and>
    (reach dflt k s \<and> int k < 2147483648 \<longrightarrow>
       (ptr_m b \<noteq> None \<longleftrightarrow> Occupied b) \<and>
       (\<forall>p. ptr_m b = Some p \<longrightarrow> (\<exists>v. objs s p = Some v)))"
proof -
  have wf: "(ptr_m b \<noteq> None \<longleftrightarrow> Occupied b) \<and>
       (\<forall>p. ptr_m b = Some p \<longrightarrow> (\<exists>v. objs s p = Some v))"
    if r: "reach dflt k s" and k: "int k < 2147483648"
  proof -
    from reach_wf [OF r] k have wf: "wf_state s" by simp
    from wf_stateD(2) [OF wf assms] have "ptr_m b \<noteq> None \<longleftrightarrow> Occupied b"
      by (cases "ref_m b") (auto simp add: Occupied_def)
    moreover from wf_stateD(3) [OF wf assms]
    have "\<forall>p. ptr_m b = Some p \<longrightarrow> (\<exists>v. objs s p = Some v)" by auto
    ultimately show ?thesis by simp
  qed
  show ?thesis
  proof (cases "ptr_m b")
    case None
    then have "\<not> Occupied b" by (simp add: Occupied_def)
    with None assms wf show ?thesis
      by (simp add: operator_star_def operator_arrow_def throw_null_ptr_exception_result)
  next
    case (Some p)
    then have "\<not> Empty b" by (simp add: Empty_def)
    with Some assms wf show ?thesis
      by (simp add: operator_star_def operator_arrow_def)
  qed
qed

theorem access_raises_iff_no_value_witness:
  "reach (0::int) 7 three_aliases \<and> int 7 < 2147483648 \<and>
   ptrs three_aliases 0 = Some nullptr \<and> Empty nullptr \<and>
   fst (operator_new 2 three_aliases) = Inr () \<and>
   fst (operator_star 0 2 three_aliases) = Inl NullPtrException \<and>
   fst (operator_arrow 0 2 three_aliases) = Inl NullPtrException \<and>
   ptrs (set_throw 1 three_aliases) 0 = Some nullptr \<and>
   fst (operator_new 2 (set_throw 1 three_aliases)) = Inl BadAlloc \<and>
   fst (operator_star 0 2 (set_throw 1 three_aliases)) = Inl BadAlloc \<and>
   fst (operator_arrow 0 2 (set_throw 1 three_aliases)) = Inl BadAlloc \<and>
   ptrs three_aliases 1 = Some \<lparr>ptr_m = Some 0, ref_m = Some 1\<rparr> \<and>
   Occupied \<lparr>ptr_m = Some 0, ref_m = Some 1\<rparr> \<and>
   operator_star 1 2 three_aliases = (Inr 0, three_aliases) \<and>
   operator_arrow 1 2 three_aliases = (Inr 0, three_aliases) \<and>
   (\<exists>v. objs three_aliases 0 = Some v)"
proof -
  let ?b = "\<lparr>ptr_m = Some 0, ref_m = Some 1\<rparr>"
  have k7: "int 7 < 2147483648" by simp
  have p0: "ptrs three_aliases 0 = Some nullptr" and p1: "ptrs three_aliases 1 = Some ?b"
    and t0: "ptrs (set_throw 1 three_aliases) 0 = Some nullptr"
    by (simp_all add: three_aliases_eq set_throw_def)
  have e: "Empty nullptr" and o: "Occupied ?b" and pn: "ptr_m nullptr = None"
    and pb: "ptr_m ?b = Some 0"
    by (simp_all add: Empty_def Occupied_def nullptr_def)
  have n1: "fst (operator_new 2 three_aliases) = Inr ()"
    and n2: "fst (operator_new 2 (set_throw 1 three_aliases)) = Inl BadAlloc"
    by (simp_all add: three_aliases_eq set_throw_def alloc Let_def)
  note a0 = access_raises_iff_no_value [OF p0, of 2 0 7]
  note a1 = access_raises_iff_no_value [OF p1, of 2 0 7]
  note a2 = access_raises_iff_no_value [OF t0, of 2 0 7]
  from a0 pn n1 have c0: "fst (operator_star 0 2 three_aliases) = Inl NullPtrException"
    "fst (operator_arrow 0 2 three_aliases) = Inl NullPtrException" by blast+
  from a2 pn n2 have c2: "fst (operator_star 0 2 (set_throw 1 three_aliases)) = Inl BadAlloc"
    "fst (operator_arrow 0 2 (set_throw 1 three_aliases)) = Inl BadAlloc" by blast+
  from a1 o pb have c1: "operator_star 1 2 three_aliases = (Inr 0, three_aliases)"
    "operator_arrow 1 2 three_aliases = (Inr 0, three_aliases)" by auto
  from a1 reach_three_aliases k7 pb have v: "\<exists>v. objs three_aliases 0 = Some v" by blast
  from reach_three_aliases k7 p0 p1 t0 e o n1 n2 c0 c1 c2 v show ?thesis by simp
qed

end
